theory Spec2Isabelle
  imports Complex_Main "HOL-Library.Char_ord" "HOL-Library.List_Lexorder"
    "HOL-Library.Product_Lexorder"
begin

section \<open>The street graph (graph.py)\<close>

text \<open>
  Python floats are idealised as mathematical reals; \<open>float('inf')\<close> is the extra
  value \<open>PInf\<close> of the type \<open>cost\<close> below. Rounding and the errors of float
  arithmetic are outside this model: \<open>euclidean_distance\<close> raises \<open>OverflowError\<close>
  in the source when a squared coordinate difference leaves the float range, and is a
  total function here. Node keys are Python strings.
  A Python dict is finite and keeps insertion order, so the two dicts of a graph are
  association lists: \<open>map_of\<close> is the lookup, a new key goes to the end.
\<close>

record Node =
  node_id :: string
  node_x :: real
  node_y :: real
  node_name :: string

record Edge =
  from_node :: string
  to_node :: string
  weight :: real
  edge_name :: string

record Graph =
  nodes :: "(string \<times> Node) list"
  edges :: "(string \<times> Edge list) list"

datatype error = KeyError

text \<open>
  \<open>Node.__init__\<close>: an empty display name falls back to the key. The fields \<open>x\<close>,
  \<open>y\<close> and \<open>name\<close> of the source carry a prefix here.
\<close>

definition mk_node :: "string \<Rightarrow> real \<Rightarrow> real \<Rightarrow> string \<Rightarrow> Node" where
  "mk_node k cx cy nm =
     \<lparr>node_id = k, node_x = cx, node_y = cy, node_name = (if nm = [] then k else nm)\<rparr>"

definition mk_edge :: "string \<Rightarrow> string \<Rightarrow> real \<Rightarrow> string \<Rightarrow> Edge" where
  "mk_edge a b w nm = \<lparr>from_node = a, to_node = b, weight = w, edge_name = nm\<rparr>"

definition empty_graph :: Graph where
  "empty_graph = \<lparr>nodes = [], edges = []\<rparr>"

text \<open>Assignment \<open>d[k] = v\<close> on an insertion-ordered dict.\<close>

fun dict_set :: "string \<Rightarrow> 'v \<Rightarrow> (string \<times> 'v) list \<Rightarrow> (string \<times> 'v) list" where
  "dict_set k v [] = [(k, v)]"
| "dict_set k v (p # ps) = (if fst p = k then (k, v) # ps else p # dict_set k v ps)"

text \<open>\<open>Graph.add_node\<close> returns the node and the graph after the call.\<close>

definition add_node :: "Graph \<Rightarrow> string \<Rightarrow> real \<Rightarrow> real \<Rightarrow> string \<Rightarrow> Node \<times> Graph" where
  "add_node g k cx cy nm =
     (case map_of (nodes g) k of
        None \<Rightarrow>
          (let node = mk_node k cx cy nm
           in (node, \<lparr>nodes = dict_set k node (nodes g), edges = dict_set k [] (edges g)\<rparr>))
      | Some node \<Rightarrow> (node, g))"

text \<open>\<open>self.edges[k].append(e)\<close>: the lookup raises when the key is missing.\<close>

definition append_edge :: "Graph \<Rightarrow> string \<Rightarrow> Edge \<Rightarrow> error + Graph" where
  "append_edge g k e =
     (case map_of (edges g) k of
        None \<Rightarrow> Inl KeyError
      | Some es \<Rightarrow> Inr (g\<lparr>edges := dict_set k (es @ [e]) (edges g)\<rparr>))"

definition add_edge :: "Graph \<Rightarrow> string \<Rightarrow> string \<Rightarrow> real \<Rightarrow> string \<Rightarrow> bool \<Rightarrow> error + Graph" where
  "add_edge g a b w nm bidirectional =
     (let g1 = (if map_of (nodes g) a = None then snd (add_node g a 0 0 []) else g);
          g2 = (if map_of (nodes g1) b = None then snd (add_node g1 b 0 0 []) else g1)
      in case append_edge g2 a (mk_edge a b w nm) of
           Inl e \<Rightarrow> Inl e
         | Inr g3 \<Rightarrow>
             if bidirectional then append_edge g3 b (mk_edge b a w nm) else Inr g3)"

definition get_neighbors :: "Graph \<Rightarrow> string \<Rightarrow> (string \<times> real) list" where
  "get_neighbors g k =
     (case map_of (edges g) k of
        None \<Rightarrow> []
      | Some es \<Rightarrow> map (\<lambda>e. (to_node e, weight e)) es)"

definition get_node :: "Graph \<Rightarrow> string \<Rightarrow> Node option" where
  "get_node g k = map_of (nodes g) k"

definition euclidean_distance :: "Graph \<Rightarrow> string \<Rightarrow> string \<Rightarrow> real" where
  "euclidean_distance g a b =
     (case (map_of (nodes g) a, map_of (nodes g) b) of
        (Some n1, Some n2) \<Rightarrow> sqrt ((node_x n1 - node_x n2)\<^sup>2 + (node_y n1 - node_y n2)\<^sup>2)
      | _ \<Rightarrow> 0)"

section \<open>Costs and the priority queue\<close>

datatype cost = Fin real | PInf

instantiation cost :: linorder
begin

definition less_eq_cost :: "cost \<Rightarrow> cost \<Rightarrow> bool" where
  "less_eq_cost a b =
     (case b of PInf \<Rightarrow> True | Fin q \<Rightarrow> (case a of PInf \<Rightarrow> False | Fin p \<Rightarrow> p \<le> q))"

definition less_cost :: "cost \<Rightarrow> cost \<Rightarrow> bool" where
  "less_cost a b =
     (case a of PInf \<Rightarrow> False | Fin p \<Rightarrow> (case b of PInf \<Rightarrow> True | Fin q \<Rightarrow> p < q))"

instance
  by standard (auto simp: less_eq_cost_def less_cost_def split: cost.splits)

end

text \<open>\<open>c + w\<close> for a float \<open>c\<close> that may be infinite and a finite \<open>w\<close>.\<close>

fun cost_add :: "cost \<Rightarrow> real \<Rightarrow> cost" where
  "cost_add (Fin a) w = Fin (a + w)"
| "cost_add PInf w = PInf"

text \<open>
  \<open>heapq\<close> keeps a list whose smallest element, in Python's tuple order (priority first,
  then key), is the one \<open>heappop\<close> removes; the order of pairs here is that order.
  The queue is modelled by its contents: a push adds the entry, a pop removes the least.
\<close>

definition heappush :: "('p \<times> string) list \<Rightarrow> 'p \<times> string \<Rightarrow> ('p \<times> string) list" where
  "heappush h e = h @ [e]"

fun heap_min :: "('p::linorder \<times> string) list \<Rightarrow> 'p \<times> string" where
  "heap_min [] = undefined"
| "heap_min [e] = e"
| "heap_min (e # e' # es) = min e (heap_min (e' # es))"

definition heappop :: "('p::linorder \<times> string) list \<Rightarrow> ('p \<times> string) \<times> ('p \<times> string) list" where
  "heappop h = (heap_min h, remove1 (heap_min h) h)"

section \<open>The search state\<close>

record 'p search =
  graph :: Graph
  pq :: "('p \<times> string) list"
  previous :: "string \<rightharpoonup> string option"
  visited :: "string set"

record dijkstra_state = "real search" +
  distances :: "string \<rightharpoonup> cost"

record astar_state = "cost search" +
  g_score :: "string \<rightharpoonup> cost"
  f_score :: "string \<rightharpoonup> cost"

datatype 's step = Raise error | Break 's | Continue 's

type_synonym result = "string list option \<times> cost"

text \<open>
  The reconstruction loop \<open>while current is not None\<close>. It runs forever on a cyclic
  predecessor map; then the value is \<open>None\<close>.
\<close>

partial_function (option) walk_back ::
  "(string \<rightharpoonup> string option) \<Rightarrow> string option \<Rightarrow> string list \<Rightarrow> (error + string list) option" where
  "walk_back prev current path =
     (case current of
        None \<Rightarrow> Some (Inr path)
      | Some c \<Rightarrow>
          (case prev c of
             None \<Rightarrow> Some (Inl KeyError)
           | Some nxt \<Rightarrow> walk_back prev nxt (path @ [c])))"

definition reconstruct ::
  "(string \<rightharpoonup> string option) \<Rightarrow> string \<Rightarrow> cost \<Rightarrow> (error + result) option" where
  "reconstruct prev goal c =
     (case walk_back prev (Some goal) [] of
        None \<Rightarrow> None
      | Some (Inl e) \<Rightarrow> Some (Inl e)
      | Some (Inr path) \<Rightarrow> Some (Inr (Some (rev path), c)))"

section \<open>Dijkstra (dijkstra.py)\<close>

definition dijkstra_init :: "Graph \<Rightarrow> string \<Rightarrow> dijkstra_state" where
  "dijkstra_init g start =
     \<lparr>graph = g,
      pq = [(0, start)],
      previous = map_of (map (\<lambda>(k, n). (k, None)) (nodes g)),
      visited = {},
      distances = (map_of (map (\<lambda>(k, n). (k, PInf)) (nodes g)))(start \<mapsto> Fin 0)\<rparr>"

fun dijkstra_relax ::
  "string \<Rightarrow> real \<Rightarrow> (string \<times> real) list \<Rightarrow> dijkstra_state \<Rightarrow> error + dijkstra_state" where
  "dijkstra_relax u d [] st = Inr st"
| "dijkstra_relax u d ((v, w) # rest) st =
     (let distance = d + w
      in case distances st v of
           None \<Rightarrow> Inl KeyError
         | Some dv \<Rightarrow>
             if Fin distance < dv
             then dijkstra_relax u d rest
                    (st\<lparr>distances := (distances st)(v \<mapsto> Fin distance),
                        previous := (previous st)(v \<mapsto> Some u),
                        pq := heappush (pq st) (distance, v)\<rparr>)
             else dijkstra_relax u d rest st)"

definition dijkstra_body :: "string \<Rightarrow> dijkstra_state \<Rightarrow> dijkstra_state step" where
  "dijkstra_body goal st =
     (case heappop (pq st) of
        ((current_distance, current_node), h) \<Rightarrow>
          let st1 = st\<lparr>pq := h\<rparr>
          in if current_node \<in> visited st1 then Continue st1
             else let st2 = st1\<lparr>visited := insert current_node (visited st1)\<rparr>
                  in if current_node = goal then Break st2
                     else case distances st2 current_node of
                            None \<Rightarrow> Raise KeyError
                          | Some dc \<Rightarrow>
                              if Fin current_distance > dc then Continue st2
                              else case dijkstra_relax current_node current_distance
                                          (get_neighbors (graph st2) current_node) st2 of
                                     Inl e \<Rightarrow> Raise e
                                   | Inr st3 \<Rightarrow> Continue st3)"

text \<open>Every key the graph mentions: the bound on what a search can ever visit.\<close>

definition graph_keys :: "Graph \<Rightarrow> string set" where
  "graph_keys g =
     fst ` set (nodes g) \<union> (\<Union>(k, es) \<in> set (edges g). to_node ` set es)"

definition loop_measure :: "('p, 'a) search_scheme \<Rightarrow> nat" where
  "loop_measure st =
     card ((graph_keys (graph st) \<union> snd ` set (pq st)) - visited st)"

lemma finite_graph_keys: "finite (graph_keys g)"
  by (auto simp: graph_keys_def)

lemma get_neighbors_keys: "(v, w) \<in> set (get_neighbors g u) \<Longrightarrow> v \<in> graph_keys g"
proof -
  assume a: "(v, w) \<in> set (get_neighbors g u)"
  then obtain es where es: "map_of (edges g) u = Some es"
    by (cases "map_of (edges g) u") (auto simp: get_neighbors_def)
  with a obtain e where "e \<in> set es" "v = to_node e"
    by (auto simp: get_neighbors_def)
  moreover from es have "(u, es) \<in> set (edges g)" by (rule map_of_SomeD)
  ultimately show ?thesis by (force simp: graph_keys_def)
qed

lemma heap_min_in: "h \<noteq> [] \<Longrightarrow> heap_min h \<in> set h"
  by (induction h rule: heap_min.induct) (auto simp: min_def)

lemma heap_min_le: "e \<in> set h \<Longrightarrow> heap_min h \<le> e"
  by (induction h rule: heap_min.induct)
    (auto simp: min_le_iff_disj simp del: less_eq_prod_simp)

lemma dijkstra_relax_frame:
  "dijkstra_relax u d ns st = Inr st' \<Longrightarrow>
     graph st' = graph st \<and> visited st' = visited st \<and>
     length (pq st) \<le> length (pq st') \<and>
     snd ` set (pq st') \<subseteq> snd ` set (pq st) \<union> fst ` set ns"
proof (induction ns arbitrary: st)
  case Nil
  then show ?case by simp
next
  case (Cons a ns)
  obtain v w where a: "a = (v, w)" by (cases a)
  from Cons.prems obtain dv where dv: "distances st v = Some dv"
    by (auto simp: a Let_def split: option.splits)
  show ?case
  proof (cases "Fin (d + w) < dv")
    case True
    with Cons.prems dv a
    have "dijkstra_relax u d ns
            (st\<lparr>distances := (distances st)(v \<mapsto> Fin (d + w)),
                previous := (previous st)(v \<mapsto> Some u),
                pq := heappush (pq st) (d + w, v)\<rparr>) = Inr st'"
      by (simp add: Let_def)
    from Cons.IH [OF this] show ?thesis
      by (auto simp: a heappush_def)
  next
    case False
    with Cons.prems dv a have "dijkstra_relax u d ns st = Inr st'" by (simp add: Let_def)
    from Cons.IH [OF this] show ?thesis by (auto simp: a)
  qed
qed

lemma loop_measure_visit:
  fixes st st' :: "('p, 'a) search_scheme"
  assumes "graph st' = graph st"
    and "snd ` set (pq st') \<subseteq> graph_keys (graph st) \<union> snd ` set (pq st)"
    and "visited st' = insert u (visited st)"
    and "u \<in> snd ` set (pq st)" and "u \<notin> visited st"
  shows "loop_measure st' < loop_measure st"
  unfolding loop_measure_def
proof (rule psubset_card_mono)
  show "finite (graph_keys (graph st) \<union> snd ` set (pq st) - visited st)"
    by (simp add: finite_graph_keys)
  show "graph_keys (graph st') \<union> snd ` set (pq st') - visited st'
          \<subset> graph_keys (graph st) \<union> snd ` set (pq st) - visited st"
    using assms by auto
qed

lemma loop_measure_skip:
  fixes st st' :: "('p, 'a) search_scheme"
  assumes "graph st' = graph st" and "set (pq st') \<subseteq> set (pq st)"
    and "visited st' = visited st"
  shows "loop_measure st' \<le> loop_measure st"
  unfolding loop_measure_def
proof (rule card_mono)
  show "finite (graph_keys (graph st) \<union> snd ` set (pq st) - visited st)"
    by (simp add: finite_graph_keys)
  show "graph_keys (graph st') \<union> snd ` set (pq st') - visited st'
          \<subseteq> graph_keys (graph st) \<union> snd ` set (pq st) - visited st"
    using assms by auto
qed

lemma heappop_facts:
  assumes "h \<noteq> []" and "heappop h = ((d, u), h')"
  shows "(d, u) \<in> set h" and "set h' \<subseteq> set h" and "length h' < length h"
    and "\<forall>e \<in> set h. (d, u) \<le> e" and "h' = remove1 (d, u) h"
proof -
  from assms have m: "heap_min h = (d, u)" and h': "h' = remove1 (d, u) h"
    by (auto simp: heappop_def)
  from heap_min_in [OF assms(1)] m show in_h: "(d, u) \<in> set h" by simp
  from h' show "set h' \<subseteq> set h" by (simp add: set_remove1_subset)
  from in_h have "0 < length h" by (cases h) auto
  with in_h h' show "length h' < length h"
    by (simp add: length_remove1)
  from m show "\<forall>e \<in> set h. (d, u) \<le> e"
    by (metis heap_min_le)
  from h' show "h' = remove1 (d, u) h" .
qed

lemma dijkstra_body_decreases:
  assumes ne: "pq st \<noteq> []" and body: "dijkstra_body goal st = Continue st'"
  shows "loop_measure st' < loop_measure st \<or>
         loop_measure st' \<le> loop_measure st \<and> length (pq st') < length (pq st)"
proof -
  obtain d u h where pop: "heappop (pq st) = ((d, u), h)"
    by (metis prod.exhaust)
  note hf = heappop_facts [OF ne pop]
  show ?thesis
  proof (cases "u \<in> visited st")
    case True
    with body pop have "st' = st\<lparr>pq := h\<rparr>"
      by (simp add: dijkstra_body_def)
    with hf show ?thesis
      by (auto intro!: loop_measure_skip)
  next
    case False
    let ?st2 = "st\<lparr>pq := h, visited := insert u (visited st)\<rparr>"
    from hf(1) have u_in: "u \<in> snd ` set (pq st)" by force
    have "loop_measure st' < loop_measure st"
    proof (rule loop_measure_visit [OF _ _ _ u_in False])
      from body pop False
      have "st' = ?st2 \<or>
            dijkstra_relax u d (get_neighbors (graph st) u) ?st2 = Inr st'"
        by (auto simp: dijkstra_body_def Let_def split: if_splits option.splits sum.splits)
      then have "graph st' = graph st \<and> visited st' = insert u (visited st) \<and>
                 snd ` set (pq st') \<subseteq> snd ` set h \<union> fst ` set (get_neighbors (graph st) u)"
      proof
        assume "st' = ?st2"
        then show ?thesis by auto
      next
        assume "dijkstra_relax u d (get_neighbors (graph st) u) ?st2 = Inr st'"
        from dijkstra_relax_frame [OF this] show ?thesis by simp
      qed
      moreover have "fst ` set (get_neighbors (graph st) u) \<subseteq> graph_keys (graph st)"
        by (auto dest: get_neighbors_keys)
      moreover have "snd ` set h \<subseteq> snd ` set (pq st)"
        using hf(2) by (rule image_mono)
      ultimately show "graph st' = graph st" "visited st' = insert u (visited st)"
        "snd ` set (pq st') \<subseteq> graph_keys (graph st) \<union> snd ` set (pq st)"
        by blast+
    qed
    then show ?thesis ..
  qed
qed

function dijkstra_loop :: "string \<Rightarrow> dijkstra_state \<Rightarrow> error + dijkstra_state" where
  "dijkstra_loop goal st =
     (if pq st = [] then Inr st
      else case dijkstra_body goal st of
             Raise e \<Rightarrow> Inl e
           | Break st' \<Rightarrow> Inr st'
           | Continue st' \<Rightarrow> dijkstra_loop goal st')"
  by pat_completeness auto
termination
proof (relation "(\<lambda>(goal, st). loop_measure st) <*mlex*> measure (\<lambda>(goal, st). length (pq st))")
  show "wf ((\<lambda>(goal, st). loop_measure st) <*mlex*> measure (\<lambda>(goal, st). length (pq st)))"
    by (simp add: wf_mlex)
next
  fix goal :: string and st st' :: dijkstra_state
  assume "pq st \<noteq> []" and "dijkstra_body goal st = Continue st'"
  from dijkstra_body_decreases [OF this]
  show "((goal, st'), (goal, st))
          \<in> (\<lambda>(goal, st). loop_measure st) <*mlex*> measure (\<lambda>(goal, st). length (pq st))"
    by (auto intro: mlex_less mlex_leq)
qed

definition dijkstra :: "Graph \<Rightarrow> string \<Rightarrow> string \<Rightarrow> (error + result) option" where
  "dijkstra g start goal =
     (if map_of (nodes g) start = None \<or> map_of (nodes g) goal = None
      then Some (Inr (None, PInf))
      else case dijkstra_loop goal (dijkstra_init g start) of
             Inl e \<Rightarrow> Some (Inl e)
           | Inr st \<Rightarrow>
               (case distances st goal of
                  None \<Rightarrow> Some (Inl KeyError)
                | Some c \<Rightarrow>
                    if c = PInf then Some (Inr (None, PInf))
                    else reconstruct (previous st) goal c))"

section \<open>A* (astar.py)\<close>

definition heuristic :: "Graph \<Rightarrow> string \<Rightarrow> string \<Rightarrow> real" where
  "heuristic g goal k = euclidean_distance g k goal"

definition astar_init :: "Graph \<Rightarrow> string \<Rightarrow> string \<Rightarrow> astar_state" where
  "astar_init g start goal =
     \<lparr>graph = g,
      pq = [(Fin (heuristic g goal start), start)],
      previous = map_of (map (\<lambda>(k, n). (k, None)) (nodes g)),
      visited = {},
      g_score = (map_of (map (\<lambda>(k, n). (k, PInf)) (nodes g)))(start \<mapsto> Fin 0),
      f_score = (map_of (map (\<lambda>(k, n). (k, PInf)) (nodes g)))
                  (start \<mapsto> Fin (heuristic g goal start))\<rparr>"

fun astar_relax ::
  "string \<Rightarrow> string \<Rightarrow> (string \<times> real) list \<Rightarrow> astar_state \<Rightarrow> error + astar_state" where
  "astar_relax goal u [] st = Inr st"
| "astar_relax goal u ((v, w) # rest) st =
     (if v \<in> visited st then astar_relax goal u rest st
      else case g_score st u of
             None \<Rightarrow> Inl KeyError
           | Some gu \<Rightarrow>
               let tentative_g_score = cost_add gu w
               in case g_score st v of
                    None \<Rightarrow> Inl KeyError
                  | Some gv \<Rightarrow>
                      if tentative_g_score < gv
                      then let fv = cost_add tentative_g_score (heuristic (graph st) goal v)
                           in astar_relax goal u rest
                                (st\<lparr>previous := (previous st)(v \<mapsto> Some u),
                                    g_score := (g_score st)(v \<mapsto> tentative_g_score),
                                    f_score := (f_score st)(v \<mapsto> fv),
                                    pq := heappush (pq st) (fv, v)\<rparr>)
                      else astar_relax goal u rest st)"

definition astar_body :: "string \<Rightarrow> astar_state \<Rightarrow> astar_state step" where
  "astar_body goal st =
     (case heappop (pq st) of
        ((current_f, current_node), h) \<Rightarrow>
          let st1 = st\<lparr>pq := h\<rparr>
          in if current_node \<in> visited st1 then Continue st1
             else let st2 = st1\<lparr>visited := insert current_node (visited st1)\<rparr>
                  in if current_node = goal then Break st2
                     else case astar_relax goal current_node
                                 (get_neighbors (graph st2) current_node) st2 of
                            Inl e \<Rightarrow> Raise e
                          | Inr st3 \<Rightarrow> Continue st3)"

lemma astar_relax_frame:
  "astar_relax goal u ns st = Inr st' \<Longrightarrow>
     graph st' = graph st \<and> visited st' = visited st \<and>
     length (pq st) \<le> length (pq st') \<and>
     snd ` set (pq st') \<subseteq> snd ` set (pq st) \<union> fst ` set ns"
proof (induction ns arbitrary: st)
  case Nil
  then show ?case by simp
next
  case (Cons a ns)
  obtain v w where a: "a = (v, w)" by (cases a)
  show ?case
  proof (cases "v \<in> visited st")
    case True
    with Cons.prems a have "astar_relax goal u ns st = Inr st'" by simp
    from Cons.IH [OF this] show ?thesis by (auto simp: a)
  next
    case False
    with Cons.prems a obtain gu gv
      where gu: "g_score st u = Some gu" and gv: "g_score st v = Some gv"
      by (auto simp: Let_def split: option.splits)
    show ?thesis
    proof (cases "cost_add gu w < gv")
      case True
      with Cons.prems a False gu gv
      have "astar_relax goal u ns
              (st\<lparr>previous := (previous st)(v \<mapsto> Some u),
                  g_score := (g_score st)(v \<mapsto> cost_add gu w),
                  f_score := (f_score st)(v \<mapsto> cost_add (cost_add gu w) (heuristic (graph st) goal v)),
                  pq := heappush (pq st) (cost_add (cost_add gu w) (heuristic (graph st) goal v), v)\<rparr>)
             = Inr st'"
        by (simp add: Let_def)
      from Cons.IH [OF this] show ?thesis
        by (auto simp: a heappush_def)
    next
      case lt: False
      with Cons.prems a False gu gv have "astar_relax goal u ns st = Inr st'"
        by (simp add: Let_def)
      from Cons.IH [OF this] show ?thesis by (auto simp: a)
    qed
  qed
qed

lemma astar_body_decreases:
  assumes ne: "pq st \<noteq> []" and body: "astar_body goal st = Continue st'"
  shows "loop_measure st' < loop_measure st \<or>
         loop_measure st' \<le> loop_measure st \<and> length (pq st') < length (pq st)"
proof -
  obtain d u h where pop: "heappop (pq st) = ((d, u), h)"
    by (metis prod.exhaust)
  note hf = heappop_facts [OF ne pop]
  show ?thesis
  proof (cases "u \<in> visited st")
    case True
    with body pop have "st' = st\<lparr>pq := h\<rparr>"
      by (simp add: astar_body_def)
    with hf show ?thesis
      by (auto intro!: loop_measure_skip)
  next
    case False
    let ?st2 = "st\<lparr>pq := h, visited := insert u (visited st)\<rparr>"
    from hf(1) have u_in: "u \<in> snd ` set (pq st)" by force
    have "loop_measure st' < loop_measure st"
    proof (rule loop_measure_visit [OF _ _ _ u_in False])
      from body pop False
      have "astar_relax goal u (get_neighbors (graph st) u) ?st2 = Inr st'"
        by (auto simp: astar_body_def Let_def split: if_splits sum.splits)
      from astar_relax_frame [OF this]
      have "graph st' = graph st \<and> visited st' = insert u (visited st) \<and>
            snd ` set (pq st') \<subseteq> snd ` set h \<union> fst ` set (get_neighbors (graph st) u)"
        by simp
      moreover have "fst ` set (get_neighbors (graph st) u) \<subseteq> graph_keys (graph st)"
        by (auto dest: get_neighbors_keys)
      moreover have "snd ` set h \<subseteq> snd ` set (pq st)"
        using hf(2) by (rule image_mono)
      ultimately show "graph st' = graph st" "visited st' = insert u (visited st)"
        "snd ` set (pq st') \<subseteq> graph_keys (graph st) \<union> snd ` set (pq st)"
        by blast+
    qed
    then show ?thesis ..
  qed
qed

function astar_loop :: "string \<Rightarrow> astar_state \<Rightarrow> error + astar_state" where
  "astar_loop goal st =
     (if pq st = [] then Inr st
      else case astar_body goal st of
             Raise e \<Rightarrow> Inl e
           | Break st' \<Rightarrow> Inr st'
           | Continue st' \<Rightarrow> astar_loop goal st')"
  by pat_completeness auto
termination
proof (relation "(\<lambda>(goal, st). loop_measure st) <*mlex*> measure (\<lambda>(goal, st). length (pq st))")
  show "wf ((\<lambda>(goal, st). loop_measure st) <*mlex*> measure (\<lambda>(goal, st). length (pq st)))"
    by (simp add: wf_mlex)
next
  fix goal :: string and st st' :: astar_state
  assume "pq st \<noteq> []" and "astar_body goal st = Continue st'"
  from astar_body_decreases [OF this]
  show "((goal, st'), (goal, st))
          \<in> (\<lambda>(goal, st). loop_measure st) <*mlex*> measure (\<lambda>(goal, st). length (pq st))"
    by (auto intro: mlex_less mlex_leq)
qed

definition astar :: "Graph \<Rightarrow> string \<Rightarrow> string \<Rightarrow> (error + result) option" where
  "astar g start goal =
     (if map_of (nodes g) start = None \<or> map_of (nodes g) goal = None
      then Some (Inr (None, PInf))
      else case astar_loop goal (astar_init g start goal) of
             Inl e \<Rightarrow> Some (Inl e)
           | Inr st \<Rightarrow>
               (case g_score st goal of
                  None \<Rightarrow> Some (Inl KeyError)
                | Some c \<Rightarrow>
                    if c = PInf then Some (Inr (None, PInf))
                    else reconstruct (previous st) goal c))"

section \<open>Building a graph through its interface\<close>

datatype op = AddNode string real real string | AddEdge string string real string bool

fun apply_op :: "Graph \<Rightarrow> op \<Rightarrow> error + Graph" where
  "apply_op g (AddNode k cx cy nm) = Inr (snd (add_node g k cx cy nm))"
| "apply_op g (AddEdge a b w nm bi) = add_edge g a b w nm bi"

fun build :: "Graph \<Rightarrow> op list \<Rightarrow> error + Graph" where
  "build g [] = Inr g"
| "build g (c # cs) = (case apply_op g c of Inl e \<Rightarrow> Inl e | Inr g' \<Rightarrow> build g' cs)"

definition diamond_ops :: "op list" where
  "diamond_ops =
     [AddNode ''A'' 0 0 ''A'', AddNode ''B'' 1 1 ''B'', AddNode ''C'' 1 (-1) ''C'',
      AddNode ''D'' 2 0 ''D'',
      AddEdge ''A'' ''B'' 1 [] True, AddEdge ''A'' ''C'' 2 [] True,
      AddEdge ''B'' ''D'' 3 [] True, AddEdge ''C'' ''D'' 1 [] True]"

definition diamond :: Graph where
  "diamond =
     \<lparr>nodes = [(''A'', mk_node ''A'' 0 0 ''A''), (''B'', mk_node ''B'' 1 1 ''B''),
               (''C'', mk_node ''C'' 1 (-1) ''C''), (''D'', mk_node ''D'' 2 0 ''D'')],
      edges = [(''A'', [mk_edge ''A'' ''B'' 1 [], mk_edge ''A'' ''C'' 2 []]),
               (''B'', [mk_edge ''B'' ''A'' 1 [], mk_edge ''B'' ''D'' 3 []]),
               (''C'', [mk_edge ''C'' ''A'' 2 [], mk_edge ''C'' ''D'' 1 []]),
               (''D'', [mk_edge ''D'' ''B'' 3 [], mk_edge ''D'' ''C'' 1 []])]\<rparr>"

section \<open>Graph construction lemmas\<close>

lemma map_of_dict_set: "map_of (dict_set k v ps) = (map_of ps)(k \<mapsto> v)"
  by (induction ps) (auto simp: fun_eq_iff)

lemma length_dict_set:
  "length (dict_set k v ps) = (if k \<in> fst ` set ps then length ps else Suc (length ps))"
  by (induction ps) auto

text \<open>
  Claim C10. Calling \<open>add_node\<close> with a key the graph already holds returns the node
  stored first and leaves the whole graph as it was: the same number of nodes, the same
  coordinates and display name under that key.
\<close>

theorem add_node_existing:
  "map_of (nodes g) k = Some n \<Longrightarrow>
     add_node g k cx cy nm = (n, g) \<and>
     length (nodes (snd (add_node g k cx cy nm))) = length (nodes g) \<and>
     map_of (nodes (snd (add_node g k cx cy nm))) k = Some n"
  by (simp add: add_node_def)

theorem add_node_existing_witness:
  "map_of (nodes (snd (add_node empty_graph ''A'' 1 2 ''first''))) ''A''
     = Some (mk_node ''A'' 1 2 ''first'') \<and>
   add_node (snd (add_node empty_graph ''A'' 1 2 ''first'')) ''A'' 5 6 ''second''
     = (mk_node ''A'' 1 2 ''first'', snd (add_node empty_graph ''A'' 1 2 ''first''))"
proof -
  have h: "map_of (nodes (snd (add_node empty_graph ''A'' 1 2 ''first''))) ''A''
     = Some (mk_node ''A'' 1 2 ''first'')"
    by (simp add: add_node_def empty_graph_def Let_def)
  show ?thesis
    using h add_node_existing [OF h, of 5 6 "''second''"] by simp
qed

section \<open>The diamond scenario\<close>

lemma build_diamond: "build empty_graph diamond_ops = Inr diamond"
  by (simp add: diamond_ops_def diamond_def empty_graph_def add_node_def add_edge_def
      append_edge_def Let_def)

lemma diamond_nbrs:
  "get_neighbors diamond ''A'' = [(''B'', 1), (''C'', 2)]"
  "get_neighbors diamond ''B'' = [(''A'', 1), (''D'', 3)]"
  "get_neighbors diamond ''C'' = [(''A'', 2), (''D'', 1)]"
  "get_neighbors diamond ''D'' = [(''B'', 3), (''C'', 1)]"
  by (simp_all add: diamond_def get_neighbors_def mk_edge_def)

lemma diamond_nodes:
  "map_of (nodes diamond) = [''A'' \<mapsto> mk_node ''A'' 0 0 ''A'', ''B'' \<mapsto> mk_node ''B'' 1 1 ''B'',
      ''C'' \<mapsto> mk_node ''C'' 1 (-1) ''C'', ''D'' \<mapsto> mk_node ''D'' 2 0 ''D'']"
  "map (\<lambda>(k, n). (k, c)) (nodes diamond) = [(''A'', c), (''B'', c), (''C'', c), (''D'', c)]"
  by (auto simp add: diamond_def)

lemma dijkstra_diamond: "dijkstra diamond ''A'' ''D'' = Some (Inr (Some [''A'', ''C'', ''D''], Fin 3))"
  by (simp add: dijkstra_def dijkstra_init_def dijkstra_body_def heappop_def heappush_def diamond_nbrs
     diamond_nodes Let_def less_cost_def min_def reconstruct_def walk_back.simps)


lemma sqrt2_bounds: "sqrt 2 < 2" "0 < sqrt 2" "sqrt 4 = 2"
proof -
  show "sqrt 2 < 2" by (rule real_less_lsqrt) auto
  show "0 < sqrt 2" by simp
  have "sqrt (2\<^sup>2) = 2" by (simp del: power2_eq_square)
  then show "sqrt 4 = 2" by simp
qed

lemma diamond_heuristic:
  "heuristic diamond ''D'' ''A'' = 2"
  "heuristic diamond ''D'' ''B'' = sqrt 2"
  "heuristic diamond ''D'' ''C'' = sqrt 2"
  "heuristic diamond ''D'' ''D'' = 0"
  by (simp_all add: heuristic_def euclidean_distance_def diamond_nodes mk_node_def sqrt2_bounds)

lemma astar_diamond: "astar diamond ''A'' ''D'' = Some (Inr (Some [''A'', ''C'', ''D''], Fin 3))"
  by (simp add: astar_def astar_init_def astar_body_def heappop_def heappush_def diamond_nbrs
     diamond_nodes diamond_heuristic Let_def less_cost_def less_eq_cost_def min_def reconstruct_def
     walk_back.simps sqrt2_bounds)


text \<open>
  Claim C4. On the diamond graph, built through \<open>add_node\<close> and \<open>add_edge\<close> with
  nodes A(0,0), B(1,1), C(1,-1), D(2,0) and the two-way edges A-B 1.0, A-C 2.0, B-D 3.0,
  C-D 1.0, both \<open>dijkstra\<close> and \<open>astar\<close> from A to D return the path A, C, D with
  total cost 3.
\<close>

theorem diamond_scenario:
  "build empty_graph diamond_ops = Inr diamond \<and>
   dijkstra diamond ''A'' ''D'' = Some (Inr (Some [''A'', ''C'', ''D''], Fin 3)) \<and>
   astar diamond ''A'' ''D'' = Some (Inr (Some [''A'', ''C'', ''D''], Fin 3))"
  using build_diamond dijkstra_diamond astar_diamond by simp

section \<open>Start equals goal\<close>

lemma map_of_const_map:
  "map_of (map (\<lambda>(k, n). (k, c)) ps) k = (if map_of ps k = None then None else Some c)"
  by (induction ps) auto

text \<open>
  Claim C3. For every graph and every key \<open>k\<close> among its nodes, \<open>dijkstra g k k\<close> and
  \<open>astar g k k\<close> both return the one-element path \<open>[k]\<close> with cost exactly 0.
\<close>

theorem same_key:
  assumes "map_of (nodes g) k \<noteq> None"
  shows "dijkstra g k k = Some (Inr (Some [k], Fin 0)) \<and>
         astar g k k = Some (Inr (Some [k], Fin 0))"
proof
  have "dijkstra_body k (dijkstra_init g k)
          = Break ((dijkstra_init g k)\<lparr>pq := [], visited := {k}\<rparr>)"
    by (simp add: dijkstra_body_def dijkstra_init_def heappop_def)
  then have "dijkstra_loop k (dijkstra_init g k)
          = Inr ((dijkstra_init g k)\<lparr>pq := [], visited := {k}\<rparr>)"
    by (simp add: dijkstra_init_def)
  with assms show "dijkstra g k k = Some (Inr (Some [k], Fin 0))"
    by (simp add: dijkstra_def dijkstra_init_def reconstruct_def walk_back.simps map_of_const_map)
next
  have "astar_body k (astar_init g k k)
          = Break ((astar_init g k k)\<lparr>pq := [], visited := {k}\<rparr>)"
    by (simp add: astar_body_def astar_init_def heappop_def)
  then have "astar_loop k (astar_init g k k)
          = Inr ((astar_init g k k)\<lparr>pq := [], visited := {k}\<rparr>)"
    by (simp add: astar_init_def)
  with assms show "astar g k k = Some (Inr (Some [k], Fin 0))"
    by (simp add: astar_def astar_init_def reconstruct_def walk_back.simps map_of_const_map)
qed

theorem same_key_witness:
  "map_of (nodes diamond) ''B'' \<noteq> None \<and>
   dijkstra diamond ''B'' ''B'' = Some (Inr (Some [''B''], Fin 0)) \<and>
   astar diamond ''B'' ''B'' = Some (Inr (Some [''B''], Fin 0))"
proof -
  have h: "map_of (nodes diamond) ''B'' \<noteq> None"
    by (simp add: diamond_nodes)
  show ?thesis
    using h same_key [OF h] by simp
qed

section \<open>Walks\<close>

fun walk :: "Graph \<Rightarrow> string \<Rightarrow> (string \<times> real) list \<Rightarrow> string \<Rightarrow> bool" where
  "walk g u [] v = (u = v)"
| "walk g u (e # es) v = (e \<in> set (get_neighbors g u) \<and> walk g (fst e) es v)"

definition walk_weight :: "(string \<times> real) list \<Rightarrow> real" where
  "walk_weight es = sum_list (map snd es)"

definition connected :: "Graph \<Rightarrow> string \<Rightarrow> string \<Rightarrow> bool" where
  "connected g s t = (\<exists>es. walk g s es t)"

definition nonneg_weights :: "Graph \<Rightarrow> bool" where
  "nonneg_weights g = (\<forall>(k, es) \<in> set (edges g). \<forall>e \<in> set es. 0 \<le> weight e)"

lemma walk_append: "walk g u (es @ fs) v \<longleftrightarrow> (\<exists>x. walk g u es x \<and> walk g x fs v)"
  by (induction es arbitrary: u) auto

lemma walk_snoc: "walk g u es x \<Longrightarrow> (v, w) \<in> set (get_neighbors g x) \<Longrightarrow> walk g u (es @ [(v, w)]) v"
  by (auto simp: walk_append)

lemma walk_weight_simps [simp]:
  "walk_weight [] = 0" "walk_weight (e # es) = snd e + walk_weight es"
  "walk_weight (es @ fs) = walk_weight es + walk_weight fs"
  by (simp_all add: walk_weight_def)

lemma nonneg_neighbors:
  assumes "nonneg_weights g" and "(v, w) \<in> set (get_neighbors g u)"
  shows "0 \<le> w"
proof -
  from assms(2) obtain es where es: "map_of (edges g) u = Some es"
    by (cases "map_of (edges g) u") (auto simp: get_neighbors_def)
  with assms(2) obtain e where e: "e \<in> set es" "w = weight e"
    by (auto simp: get_neighbors_def)
  from es have "(u, es) \<in> set (edges g)" by (rule map_of_SomeD)
  with assms(1) e show ?thesis by (auto simp: nonneg_weights_def)
qed

lemma nonneg_walk: "nonneg_weights g \<Longrightarrow> walk g u es v \<Longrightarrow> 0 \<le> walk_weight es"
proof (induction es arbitrary: u)
  case Nil
  then show ?case by simp
next
  case (Cons e es)
  from Cons.prems have e: "e \<in> set (get_neighbors g u)" and w: "walk g (fst e) es v"
    by simp_all
  from e have "0 \<le> snd e"
    using nonneg_neighbors [OF Cons.prems(1), of "fst e" "snd e" u] by simp
  moreover from Cons.IH [OF Cons.prems(1) w] have "0 \<le> walk_weight es" .
  ultimately show ?case by simp
qed

section \<open>Loop rules\<close>

lemma dijkstra_loop_rule:
  assumes "I st"
    and "\<And>st st'. I st \<Longrightarrow> pq st \<noteq> [] \<Longrightarrow> dijkstra_body goal st = Continue st' \<Longrightarrow> I st'"
    and "\<And>st st'. I st \<Longrightarrow> pq st \<noteq> [] \<Longrightarrow> dijkstra_body goal st = Break st' \<Longrightarrow> R (Inr st')"
    and "\<And>st e. I st \<Longrightarrow> pq st \<noteq> [] \<Longrightarrow> dijkstra_body goal st = Raise e \<Longrightarrow> R (Inl e)"
    and "\<And>st. I st \<Longrightarrow> pq st = [] \<Longrightarrow> R (Inr st)"
  shows "R (dijkstra_loop goal st)"
  using assms
proof (induction goal st rule: dijkstra_loop.induct)
  case (1 goal st)
  show ?case
  proof (cases "pq st = []")
    case True
    with "1.prems"(1,5) show ?thesis by simp
  next
    case False
    show ?thesis
    proof (cases "dijkstra_body goal st")
      case (Raise e)
      with False "1.prems"(1,4) show ?thesis by simp
    next
      case (Break st')
      with False "1.prems"(1,3) show ?thesis by simp
    next
      case (Continue st')
      with False "1.prems"(1,2) have "I st'" by blast
      from "1.IH" [OF False Continue this "1.prems"(2-5)] False Continue
      show ?thesis by simp
    qed
  qed
qed

definition dijkstra_improve :: "string \<Rightarrow> real \<Rightarrow> string \<Rightarrow> dijkstra_state \<Rightarrow> dijkstra_state" where
  "dijkstra_improve u c v st =
     st\<lparr>distances := (distances st)(v \<mapsto> Fin c),
        previous := (previous st)(v \<mapsto> Some u),
        pq := heappush (pq st) (c, v)\<rparr>"

lemma dijkstra_relax_Cons:
  "dijkstra_relax u d ((v, w) # rest) st =
     (case distances st v of
        None \<Rightarrow> Inl KeyError
      | Some dv \<Rightarrow>
          if Fin (d + w) < dv then dijkstra_relax u d rest (dijkstra_improve u (d + w) v st)
          else dijkstra_relax u d rest st)"
  by (cases "distances st v") (simp_all add: dijkstra_improve_def Let_def)

lemma dijkstra_relax_rule:
  assumes "dijkstra_relax u d ns st = Inr st'"
    and "I st"
    and "\<And>st v w dv. I st \<Longrightarrow> (v, w) \<in> set ns \<Longrightarrow> distances st v = Some dv \<Longrightarrow>
           Fin (d + w) < dv \<Longrightarrow> I (dijkstra_improve u (d + w) v st)"
  shows "I st'"
  using assms
proof (induction ns arbitrary: st)
  case Nil
  then show ?case by simp
next
  case (Cons a ns)
  obtain v w where a: "a = (v, w)" by (cases a)
  from Cons.prems(1) obtain dv where dv: "distances st v = Some dv"
    unfolding a dijkstra_relax_Cons by (cases "distances st v") auto
  have step: "\<And>st v w dv. I st \<Longrightarrow> (v, w) \<in> set ns \<Longrightarrow> distances st v = Some dv \<Longrightarrow>
           Fin (d + w) < dv \<Longrightarrow> I (dijkstra_improve u (d + w) v st)"
    using Cons.prems(3) by simp
  show ?case
  proof (cases "Fin (d + w) < dv")
    case True
    with Cons.prems(1) dv have r: "dijkstra_relax u d ns (dijkstra_improve u (d + w) v st) = Inr st'"
      unfolding a dijkstra_relax_Cons by simp
    from Cons.prems(2) Cons.prems(3) [of st v w dv] dv True
    have "I (dijkstra_improve u (d + w) v st)" by (simp add: a)
    from Cons.IH [OF r this step] show ?thesis .
  next
    case False
    with Cons.prems(1) dv have r: "dijkstra_relax u d ns st = Inr st'"
      unfolding a dijkstra_relax_Cons by simp
    from Cons.IH [OF r Cons.prems(2) step] show ?thesis .
  qed
qed


section \<open>Invariants of the Dijkstra loop, for every graph\<close>

definition finite_at :: "(string \<rightharpoonup> cost) \<Rightarrow> string \<Rightarrow> bool" where
  "finite_at D v = (case D v of Some (Fin c) \<Rightarrow> True | _ \<Rightarrow> False)"

lemma finite_at_iff: "finite_at D v \<longleftrightarrow> (\<exists>c. D v = Some (Fin c))"
  by (auto simp: finite_at_def split: option.splits cost.splits)

definition d_dom :: "Graph \<Rightarrow> dijkstra_state \<Rightarrow> bool" where
  "d_dom g st \<longleftrightarrow>
     graph st = g \<and> dom (distances st) = dom (map_of (nodes g)) \<and>
     dom (previous st) = dom (map_of (nodes g))"

definition d_queue :: "Graph \<Rightarrow> string \<Rightarrow> dijkstra_state \<Rightarrow> bool" where
  "d_queue g s st \<longleftrightarrow>
     (\<forall>d u. (d, u) \<in> set (pq st) \<longrightarrow>
        (\<exists>c. distances st u = Some (Fin c) \<and> c \<le> d) \<and>
        (\<exists>es. walk g s es u \<and> walk_weight es = d))"

definition d_dist :: "Graph \<Rightarrow> string \<Rightarrow> dijkstra_state \<Rightarrow> bool" where
  "d_dist g s st \<longleftrightarrow>
     (\<forall>v c. distances st v = Some (Fin c) \<longrightarrow>
        (\<exists>es. walk g s es v \<and> walk_weight es = c) \<and>
        (v = s \<or> (\<exists>u. previous st v = Some (Some u))))"

definition d_prev :: "Graph \<Rightarrow> dijkstra_state \<Rightarrow> bool" where
  "d_prev g st \<longleftrightarrow>
     (\<forall>v u. previous st v = Some (Some u) \<longrightarrow>
        v \<in> fst ` set (get_neighbors g u) \<and>
        finite_at (distances st) u \<and> finite_at (distances st) v)"

definition d_front :: "dijkstra_state \<Rightarrow> bool" where
  "d_front st \<longleftrightarrow>
     (\<forall>v c. v \<notin> visited st \<longrightarrow> distances st v = Some (Fin c) \<longrightarrow> (c, v) \<in> set (pq st))"

definition d_closed :: "Graph \<Rightarrow> string set \<Rightarrow> dijkstra_state \<Rightarrow> bool" where
  "d_closed g X st \<longleftrightarrow>
     (\<forall>u. u \<in> visited st \<longrightarrow> finite_at (distances st) u) \<and>
     (\<forall>u v w. u \<in> visited st \<longrightarrow> u \<notin> X \<longrightarrow> (v, w) \<in> set (get_neighbors g u) \<longrightarrow>
        finite_at (distances st) v)"

definition dijkstra_inv :: "Graph \<Rightarrow> string \<Rightarrow> string set \<Rightarrow> dijkstra_state \<Rightarrow> bool" where
  "dijkstra_inv g s X st \<longleftrightarrow>
     d_dom g st \<and> d_queue g s st \<and> d_dist g s st \<and> d_prev g st \<and> d_front st \<and>
     d_closed g X st \<and> finite_at (distances st) s"

lemma dijkstra_improve_simps [simp]:
  "graph (dijkstra_improve u c v st) = graph st"
  "visited (dijkstra_improve u c v st) = visited st"
  "distances (dijkstra_improve u c v st) = (distances st)(v \<mapsto> Fin c)"
  "previous (dijkstra_improve u c v st) = (previous st)(v \<mapsto> Some u)"
  "set (pq (dijkstra_improve u c v st)) = insert (c, v) (set (pq st))"
  by (simp_all add: dijkstra_improve_def heappush_def)

lemma finite_at_upd:
  "finite_at D x \<Longrightarrow> finite_at (D(v \<mapsto> Fin c)) x"
  "finite_at (D(v \<mapsto> Fin c)) v"
  by (simp_all add: finite_at_def)

lemma d_dom_improve:
  assumes "d_dom g st" and "distances st v = Some dv"
  shows "d_dom g (dijkstra_improve u c v st)"
proof -
  from assms have "v \<in> dom (map_of (nodes g))" by (auto simp: d_dom_def)
  with assms(1) show ?thesis by (auto simp: d_dom_def)
qed

lemma d_queue_improve:
  assumes "d_queue g s st" and "distances st v = Some dv" and "Fin c < dv"
    and "\<exists>es. walk g s es v \<and> walk_weight es = c"
  shows "d_queue g s (dijkstra_improve u c v st)"
  unfolding d_queue_def
proof (intro allI impI)
  fix d x
  assume "(d, x) \<in> set (pq (dijkstra_improve u c v st))"
  then consider "(d, x) = (c, v)" | "(d, x) \<in> set (pq st)" by auto
  then show "(\<exists>c'. distances (dijkstra_improve u c v st) x = Some (Fin c') \<and> c' \<le> d) \<and>
             (\<exists>es. walk g s es x \<and> walk_weight es = d)"
  proof cases
    case 1
    with assms(4) show ?thesis by simp
  next
    case 2
    with assms(1) obtain c' where c': "distances st x = Some (Fin c')" "c' \<le> d"
      and w: "\<exists>es. walk g s es x \<and> walk_weight es = d"
      unfolding d_queue_def by blast
    show ?thesis
    proof (cases "x = v")
      case True
      with c' assms(2,3) have "c \<le> d" by (auto simp: less_cost_def)
      with True w show ?thesis by simp
    next
      case False
      with c' w show ?thesis by simp
    qed
  qed
qed

lemma d_dist_improve:
  assumes "d_dist g s st" and "\<exists>es. walk g s es v \<and> walk_weight es = c"
  shows "d_dist g s (dijkstra_improve u c v st)"
  using assms by (auto simp: d_dist_def)

lemma d_prev_improve:
  assumes "d_prev g st" and "v \<in> fst ` set (get_neighbors g u)"
    and "finite_at (distances st) u"
  shows "d_prev g (dijkstra_improve u c v st)"
  using assms by (auto simp: d_prev_def finite_at_upd)

lemma d_front_improve:
  assumes "d_front st"
  shows "d_front (dijkstra_improve u c v st)"
  using assms by (auto simp: d_front_def)

lemma d_closed_improve:
  assumes "d_closed g X st"
  shows "d_closed g X (dijkstra_improve u c v st)"
  using assms unfolding d_closed_def dijkstra_improve_simps
  by (meson finite_at_upd(1))


lemma dijkstra_inv_improve:
  assumes inv: "dijkstra_inv g s X st" and u: "u \<in> visited st"
    and e: "(v, w) \<in> set (get_neighbors g u)"
    and dv: "distances st v = Some dv" and lt: "Fin (d + w) < dv"
    and wu: "\<exists>es. walk g s es u \<and> walk_weight es = d"
  shows "dijkstra_inv g s X (dijkstra_improve u (d + w) v st)"
proof -
  from wu obtain es where es: "walk g s es u" "walk_weight es = d" by blast
  from walk_snoc [OF es(1) e] es(2)
  have wv: "\<exists>es. walk g s es v \<and> walk_weight es = d + w"
    by (intro exI [of _ "es @ [(v, w)]"]) simp
  from inv u have fu: "finite_at (distances st) u"
    by (simp add: dijkstra_inv_def d_closed_def)
  from e have nb: "v \<in> fst ` set (get_neighbors g u)" by force
  from inv show ?thesis
    unfolding dijkstra_inv_def
    by (auto intro: d_dom_improve [OF _ dv] d_queue_improve [OF _ dv lt wv] d_dist_improve [OF _ wv]
        d_prev_improve [OF _ nb fu] d_front_improve d_closed_improve simp: finite_at_upd)
qed

lemma dijkstra_relax_inv:
  assumes r: "dijkstra_relax u d ns st = Inr st'"
    and inv: "dijkstra_inv g s X st" and u: "u \<in> visited st"
    and ns: "set ns \<subseteq> set (get_neighbors g u)"
    and wu: "\<exists>es. walk g s es u \<and> walk_weight es = d"
  shows "dijkstra_inv g s X st'"
proof -
  have "dijkstra_inv g s X st' \<and> u \<in> visited st'"
  proof (rule dijkstra_relax_rule [OF r, where I = "\<lambda>st. dijkstra_inv g s X st \<and> u \<in> visited st"])
    from inv u show "dijkstra_inv g s X st \<and> u \<in> visited st" ..
  next
    fix st0 :: dijkstra_state and v w dv
    assume a: "dijkstra_inv g s X st0 \<and> u \<in> visited st0" "(v, w) \<in> set ns"
      "distances st0 v = Some dv" "Fin (d + w) < dv"
    with ns have "(v, w) \<in> set (get_neighbors g u)" by blast
    with a wu show "dijkstra_inv g s X (dijkstra_improve u (d + w) v st0) \<and>
                    u \<in> visited (dijkstra_improve u (d + w) v st0)"
      by (simp add: dijkstra_inv_improve)
  qed
  then show ?thesis ..
qed

lemma dijkstra_relax_mono:
  assumes r: "dijkstra_relax u d ns st = Inr st'" and c: "distances st a = Some (Fin c)"
  shows "\<exists>c'. distances st' a = Some (Fin c') \<and> c' \<le> c"
proof (rule dijkstra_relax_rule [OF r, where I = "\<lambda>st. \<exists>c'. distances st a = Some (Fin c') \<and> c' \<le> c"])
  from c show "\<exists>c'. distances st a = Some (Fin c') \<and> c' \<le> c" by simp
next
  fix st0 :: dijkstra_state and v w dv
  assume a: "\<exists>c'. distances st0 a = Some (Fin c') \<and> c' \<le> c"
    "distances st0 v = Some dv" "Fin (d + w) < dv"
  then show "\<exists>c'. distances (dijkstra_improve u (d + w) v st0) a = Some (Fin c') \<and> c' \<le> c"
    by (cases "a = v") (auto simp: less_cost_def)
qed

lemma dijkstra_relax_done:
  assumes "dijkstra_relax u d ns st = Inr st'" and "(v, w) \<in> set ns"
  shows "\<exists>c. distances st' v = Some (Fin c) \<and> c \<le> d + w"
  using assms
proof (induction ns arbitrary: st)
  case Nil
  then show ?case by simp
next
  case (Cons a ns)
  obtain v0 w0 where a: "a = (v0, w0)" by (cases a)
  from Cons.prems(1) obtain dv where dv: "distances st v0 = Some dv"
    unfolding a dijkstra_relax_Cons by (cases "distances st v0") auto
  define st1 where "st1 = (if Fin (d + w0) < dv then dijkstra_improve u (d + w0) v0 st else st)"
  from Cons.prems(1) dv have r: "dijkstra_relax u d ns st1 = Inr st'"
    unfolding a dijkstra_relax_Cons st1_def by (simp split: if_splits)
  show ?case
  proof (cases "(v, w) \<in> set ns")
    case True
    from Cons.IH [OF r True] show ?thesis .
  next
    case False
    with Cons.prems(2) a have vw: "v = v0" "w = w0" by auto
    have "\<exists>c. distances st1 v0 = Some (Fin c) \<and> c \<le> d + w0"
      using dv by (cases dv) (auto simp: st1_def less_cost_def)
    then obtain c where "distances st1 v0 = Some (Fin c)" "c \<le> d + w0" by blast
    with dijkstra_relax_mono [OF r this(1)] vw show ?thesis by fastforce
  qed
qed

lemma dijkstra_pop_inv:
  assumes inv: "dijkstra_inv g s X st" and ne: "pq st \<noteq> []"
    and pop: "heappop (pq st) = ((d, u), h)" and u: "u \<in> visited st"
  shows "dijkstra_inv g s X (st\<lparr>pq := h\<rparr>)"
proof -
  note hf = heappop_facts [OF ne pop]
  have "d_front (st\<lparr>pq := h\<rparr>)"
    unfolding d_front_def
  proof (intro allI impI)
    fix v c
    assume a: "v \<notin> visited (st\<lparr>pq := h\<rparr>)" "distances (st\<lparr>pq := h\<rparr>) v = Some (Fin c)"
    with inv have "(c, v) \<in> set (pq st)" by (simp add: dijkstra_inv_def d_front_def)
    moreover from a u have "(c, v) \<noteq> (d, u)" by auto
    ultimately show "(c, v) \<in> set (pq (st\<lparr>pq := h\<rparr>))"
      using hf(5) by simp
  qed
  moreover from inv hf(2) have "d_queue g s (st\<lparr>pq := h\<rparr>)"
    unfolding dijkstra_inv_def d_queue_def by (simp add: subset_iff)
  moreover from inv have "d_dom g (st\<lparr>pq := h\<rparr>)" "d_dist g s (st\<lparr>pq := h\<rparr>)"
    "d_prev g (st\<lparr>pq := h\<rparr>)" "d_closed g X (st\<lparr>pq := h\<rparr>)"
    "finite_at (distances (st\<lparr>pq := h\<rparr>)) s"
    by (simp_all add: dijkstra_inv_def d_dom_def d_dist_def d_prev_def d_closed_def)
  ultimately show ?thesis by (simp add: dijkstra_inv_def)
qed

lemma dijkstra_visit_inv:
  assumes inv: "dijkstra_inv g s X st" and ne: "pq st \<noteq> []"
    and pop: "heappop (pq st) = ((d, u), h)" and u: "u \<notin> visited st"
  shows "dijkstra_inv g s (insert u X) (st\<lparr>pq := h, visited := insert u (visited st)\<rparr>)"
    (is "dijkstra_inv g s _ ?st2")
proof -
  note hf = heappop_facts [OF ne pop]
  have "d_front ?st2"
    unfolding d_front_def
  proof (intro allI impI)
    fix v c
    assume a: "v \<notin> visited ?st2" "distances ?st2 v = Some (Fin c)"
    with inv have "(c, v) \<in> set (pq st)" by (simp add: dijkstra_inv_def d_front_def)
    moreover from a have "(c, v) \<noteq> (d, u)" by auto
    ultimately show "(c, v) \<in> set (pq ?st2)"
      using hf(5) by simp
  qed
  moreover from inv hf(2) have "d_queue g s ?st2"
    unfolding dijkstra_inv_def d_queue_def by (simp add: subset_iff)
  moreover from inv hf(1) have "finite_at (distances st) u"
    unfolding dijkstra_inv_def d_queue_def finite_at_iff by blast
  with inv have "d_closed g (insert u X) ?st2"
    unfolding dijkstra_inv_def d_closed_def by auto
  moreover from inv have "d_dom g ?st2" "d_dist g s ?st2" "d_prev g ?st2"
    "finite_at (distances ?st2) s"
    by (simp_all add: dijkstra_inv_def d_dom_def d_dist_def d_prev_def)
  ultimately show ?thesis by (simp add: dijkstra_inv_def)
qed

lemma dijkstra_pop_exact:
  assumes inv: "dijkstra_inv g s X st" and ne: "pq st \<noteq> []"
    and pop: "heappop (pq st) = ((d, u), h)" and u: "u \<notin> visited st"
  shows "distances st u = Some (Fin d)"
proof -
  note hf = heappop_facts [OF ne pop]
  from inv hf(1) obtain c where c: "distances st u = Some (Fin c)" "c \<le> d"
    unfolding dijkstra_inv_def d_queue_def by blast
  with inv u have "(c, u) \<in> set (pq st)" by (simp add: dijkstra_inv_def d_front_def)
  with hf(4) have "(d, u) \<le> (c, u)" by blast
  then have "d \<le> c" by auto
  with c show ?thesis by simp
qed


lemma dijkstra_body_unfold:
  assumes "heappop (pq st) = ((d, u), h)"
  shows "dijkstra_body t st =
     (if u \<in> visited st then Continue (st\<lparr>pq := h\<rparr>)
      else if u = t then Break (st\<lparr>pq := h, visited := insert u (visited st)\<rparr>)
      else case distances st u of
             None \<Rightarrow> Raise KeyError
           | Some dc \<Rightarrow>
               if dc < Fin d then Continue (st\<lparr>pq := h, visited := insert u (visited st)\<rparr>)
               else case dijkstra_relax u d (get_neighbors (graph st) u)
                           (st\<lparr>pq := h, visited := insert u (visited st)\<rparr>) of
                      Inl e \<Rightarrow> Raise e
                    | Inr st3 \<Rightarrow> Continue st3)"
  using assms by (auto simp: dijkstra_body_def Let_def split: option.splits)

lemma d_closed_drop:
  assumes "d_closed g (insert u X) st"
    and "\<And>v w. (v, w) \<in> set (get_neighbors g u) \<Longrightarrow> finite_at (distances st) v"
  shows "d_closed g X st"
  using assms unfolding d_closed_def by blast

lemma dijkstra_body_inv:
  assumes inv: "dijkstra_inv g s {t} st" and ne: "pq st \<noteq> []"
  shows "(dijkstra_body t st = Continue st' \<longrightarrow> dijkstra_inv g s {t} st') \<and>
         (dijkstra_body t st = Break st' \<longrightarrow> dijkstra_inv g s {t} st' \<and> t \<in> visited st')"
proof -
  obtain d u h where pop: "heappop (pq st) = ((d, u), h)"
    by (metis prod.exhaust)
  note hf = heappop_facts [OF ne pop]
  note body = dijkstra_body_unfold [OF pop, of t]
  show ?thesis
  proof (cases "u \<in> visited st")
    case True
    with body dijkstra_pop_inv [OF inv ne pop True] show ?thesis by auto
  next
    case False
    let ?st2 = "st\<lparr>pq := h, visited := insert u (visited st)\<rparr>"
    note inv2 = dijkstra_visit_inv [OF inv ne pop False]
    show ?thesis
    proof (cases "u = t")
      case True
      with body False inv2 show ?thesis by auto
    next
      case ut: False
      from dijkstra_pop_exact [OF inv ne pop False]
      have du: "distances st u = Some (Fin d)" .
      from inv have gr: "graph st = g" by (simp add: dijkstra_inv_def d_dom_def)
      show ?thesis
      proof (cases "dijkstra_relax u d (get_neighbors g u) ?st2")
        case (Inl e)
        with body False ut du gr show ?thesis by simp
      next
        case (Inr st3)
        from inv hf(1) have wu: "\<exists>es. walk g s es u \<and> walk_weight es = d"
          unfolding dijkstra_inv_def d_queue_def by blast
        have "dijkstra_inv g s {u, t} st3"
          by (rule dijkstra_relax_inv [OF Inr inv2 _ _ wu]) simp_all
        moreover have "finite_at (distances st3) v" if "(v, w) \<in> set (get_neighbors g u)" for v w
          using dijkstra_relax_done [OF Inr that] by (auto simp: finite_at_iff)
        ultimately have "dijkstra_inv g s {t} st3"
          unfolding dijkstra_inv_def by (blast intro: d_closed_drop)
        with body False ut du gr Inr show ?thesis by auto
      qed
    qed
  qed
qed

lemma dom_map_const: "dom (map_of (map (\<lambda>(k, n). (k, c)) ps)) = dom (map_of ps)"
  by (auto simp: map_of_const_map dom_def)

lemma dijkstra_init_inv:
  assumes "map_of (nodes g) s \<noteq> None"
  shows "dijkstra_inv g s X (dijkstra_init g s)"
proof -
  have D: "distances (dijkstra_init g s) v = Some (Fin c) \<longleftrightarrow> v = s \<and> c = 0" for v c
    by (auto simp: dijkstra_init_def map_of_const_map)
  have P: "previous (dijkstra_init g s) v \<noteq> Some (Some u)" for v u
    by (auto simp: dijkstra_init_def map_of_const_map)
  have "d_dom g (dijkstra_init g s)"
    using assms by (auto simp: d_dom_def dijkstra_init_def dom_map_const)
  moreover have "d_queue g s (dijkstra_init g s)"
    unfolding d_queue_def D by (auto simp: dijkstra_init_def intro: exI [of _ "[]"])
  moreover have "d_dist g s (dijkstra_init g s)"
    unfolding d_dist_def D by (auto intro: exI [of _ "[]"])
  moreover have "d_prev g (dijkstra_init g s)"
    unfolding d_prev_def using P by simp
  moreover have "d_front (dijkstra_init g s)"
    unfolding d_front_def D by (simp add: dijkstra_init_def)
  moreover have "d_closed g X (dijkstra_init g s)"
    by (simp add: d_closed_def dijkstra_init_def)
  moreover have "finite_at (distances (dijkstra_init g s)) s"
    unfolding finite_at_iff D by simp
  ultimately show ?thesis by (simp add: dijkstra_inv_def)
qed

lemma dijkstra_loop_inv:
  assumes "dijkstra_inv g s {t} st" and "dijkstra_loop t st = Inr st'"
  shows "dijkstra_inv g s {t} st' \<and> (pq st' = [] \<or> t \<in> visited st')"
proof -
  have "case dijkstra_loop t st of
          Inl e \<Rightarrow> True
        | Inr st' \<Rightarrow> dijkstra_inv g s {t} st' \<and> (pq st' = [] \<or> t \<in> visited st')"
  proof (rule dijkstra_loop_rule [where I = "dijkstra_inv g s {t}"])
    show "dijkstra_inv g s {t} st" by (rule assms(1))
  next
    fix st0 st1 :: dijkstra_state
    assume "dijkstra_inv g s {t} st0" "pq st0 \<noteq> []" "dijkstra_body t st0 = Continue st1"
    with dijkstra_body_inv [of g s t st0 st1] show "dijkstra_inv g s {t} st1" by simp
  next
    fix st0 st1 :: dijkstra_state
    assume "dijkstra_inv g s {t} st0" "pq st0 \<noteq> []" "dijkstra_body t st0 = Break st1"
    with dijkstra_body_inv [of g s t st0 st1]
    show "case Inr st1 of Inl e \<Rightarrow> True
          | Inr st' \<Rightarrow> dijkstra_inv g s {t} st' \<and> (pq st' = [] \<or> t \<in> visited st')"
      by simp
  next
    fix st0 :: dijkstra_state and e :: error
    show "case Inl e of Inl e \<Rightarrow> True
          | Inr st' \<Rightarrow> dijkstra_inv g s {t} st' \<and> (pq st' = [] \<or> t \<in> visited st')"
      by simp
  next
    fix st0 :: dijkstra_state
    assume "dijkstra_inv g s {t} st0" "pq st0 = []"
    then show "case Inr st0 of Inl e \<Rightarrow> True
          | Inr st' \<Rightarrow> dijkstra_inv g s {t} st' \<and> (pq st' = [] \<or> t \<in> visited st')"
      by simp
  qed
  with assms(2) show ?thesis by simp
qed

section \<open>Predecessor chains and the reconstruction loop\<close>

fun chain :: "(string \<rightharpoonup> string option) \<Rightarrow> string option \<Rightarrow> string list \<Rightarrow> bool" where
  "chain prev cur [] = (cur = None)"
| "chain prev cur (c # cs) =
     (cur = Some c \<and> (case prev c of None \<Rightarrow> False | Some nxt \<Rightarrow> chain prev nxt cs))"

lemma chain_Cons:
  "chain prev cur (c # cs) \<longleftrightarrow>
     cur = Some c \<and> (\<exists>nxt. prev c = Some nxt \<and> chain prev nxt cs)"
  by (cases "prev c") auto

declare chain.simps(2) [simp del]

lemma walk_back_chain:
  "chain prev cur cs \<Longrightarrow> walk_back prev cur path = Some (Inr (path @ cs))"
proof (induction cs arbitrary: cur path)
  case Nil
  then show ?case by (simp add: walk_back.simps)
next
  case (Cons c cs)
  from Cons.prems obtain nxt where c: "cur = Some c" "prev c = Some nxt" "chain prev nxt cs"
    by (auto simp: chain_Cons)
  from Cons.IH [OF c(3), of "path @ [c]"] c(1,2) show ?case
    by (subst walk_back.simps) simp
qed

lemma walk_back_returns:
  assumes "walk_back prev cur path = Some (Inr p)"
  shows "\<exists>cs. chain prev cur cs \<and> p = path @ cs"
proof -
  have "\<forall>p. r = Inr p \<longrightarrow> (\<exists>cs. chain prev cur cs \<and> p = path @ cs)"
    if "walk_back prev cur path = Some r" for r
  proof (rule walk_back.raw_induct
      [where P = "\<lambda>prev cur path r. \<forall>p. r = Inr p \<longrightarrow> (\<exists>cs. chain prev cur cs \<and> p = path @ cs)",
        OF _ that])
    fix wb :: "(string \<rightharpoonup> string option) \<Rightarrow> string option \<Rightarrow> string list \<Rightarrow> (error + string list) option"
    fix prev cur path r
    assume IH: "\<And>prev cur path r. wb prev cur path = Some r \<Longrightarrow>
                  \<forall>p. r = Inr p \<longrightarrow> (\<exists>cs. chain prev cur cs \<and> p = path @ cs)"
      and eq: "(case cur of None \<Rightarrow> Some (Inr path)
                | Some c \<Rightarrow> (case prev c of None \<Rightarrow> Some (Inl KeyError)
                    | Some nxt \<Rightarrow> wb prev nxt (path @ [c]))) = Some r"
    show "\<forall>p. r = Inr p \<longrightarrow> (\<exists>cs. chain prev cur cs \<and> p = path @ cs)"
    proof (intro allI impI)
      fix p assume rp: "r = Inr p"
      show "\<exists>cs. chain prev cur cs \<and> p = path @ cs"
      proof (cases cur)
        case None
        with eq rp show ?thesis by auto
      next
        case (Some c)
        with eq rp obtain nxt
          where nxt: "prev c = Some nxt" "wb prev nxt (path @ [c]) = Some (Inr p)"
          by (auto split: option.splits)
        from IH [OF nxt(2)] obtain cs where "chain prev nxt cs" "p = (path @ [c]) @ cs" by blast
        with Some nxt(1) show ?thesis
          by (intro exI [of _ "c # cs"]) (simp add: chain_Cons)
      qed
    qed
  qed
  with assms show ?thesis by blast
qed

lemma walk_back_no_error:
  assumes r: "walk_back prev cur path = Some r"
    and closed: "\<And>v. v \<in> S \<Longrightarrow> \<exists>nxt. prev v = Some nxt \<and> (\<forall>u. nxt = Some u \<longrightarrow> u \<in> S)"
    and cur: "\<And>c. cur = Some c \<Longrightarrow> c \<in> S"
  shows "\<exists>p. r = Inr p"
proof -
  have "prev' = prev \<longrightarrow> (\<forall>c. cur = Some c \<longrightarrow> c \<in> S) \<longrightarrow> (\<exists>p. r = Inr p)"
    if "walk_back prev' cur path = Some r" for prev'
  proof (rule walk_back.raw_induct
      [where P = "\<lambda>prev' cur path r. prev' = prev \<longrightarrow> (\<forall>c. cur = Some c \<longrightarrow> c \<in> S) \<longrightarrow> (\<exists>p. r = Inr p)",
        OF _ that])
    fix wb :: "(string \<rightharpoonup> string option) \<Rightarrow> string option \<Rightarrow> string list \<Rightarrow> (error + string list) option"
    fix prev' cur path r
    assume IH: "\<And>prev' cur path r. wb prev' cur path = Some r \<Longrightarrow>
                  prev' = prev \<longrightarrow> (\<forall>c. cur = Some c \<longrightarrow> c \<in> S) \<longrightarrow> (\<exists>p. r = Inr p)"
      and eq: "(case cur of None \<Rightarrow> Some (Inr path)
                | Some c \<Rightarrow> (case prev' c of None \<Rightarrow> Some (Inl KeyError)
                    | Some nxt \<Rightarrow> wb prev' nxt (path @ [c]))) = Some r"
    show "prev' = prev \<longrightarrow> (\<forall>c. cur = Some c \<longrightarrow> c \<in> S) \<longrightarrow> (\<exists>p. r = Inr p)"
    proof (intro impI)
      assume p: "prev' = prev" and cS: "\<forall>c. cur = Some c \<longrightarrow> c \<in> S"
      show "\<exists>p. r = Inr p"
      proof (cases cur)
        case None
        with eq show ?thesis by auto
      next
        case (Some c)
        with cS have "c \<in> S" by simp
        from closed [OF this] obtain nxt
          where nxt: "prev c = Some nxt" "\<forall>u. nxt = Some u \<longrightarrow> u \<in> S"
          by blast
        with Some eq p have "wb prev nxt (path @ [c]) = Some r" by simp
        from IH [OF this] nxt(2) show ?thesis by simp
      qed
    qed
  qed
  with r cur show ?thesis by blast
qed

lemma chain_unique: "chain prev cur cs \<Longrightarrow> chain prev cur cs' \<Longrightarrow> cs = cs'"
proof (induction cs arbitrary: cur cs')
  case Nil
  then show ?case by (cases cs') (auto simp: chain_Cons)
next
  case (Cons c cs)
  then show ?case by (cases cs') (auto simp: chain_Cons)
qed

lemma chain_suffix: "chain prev cur (as @ c # bs) \<Longrightarrow> chain prev (Some c) (c # bs)"
  by (induction as arbitrary: cur) (auto simp: chain_Cons)

lemma chain_distinct: "chain prev cur cs \<Longrightarrow> distinct cs"
proof (induction cs arbitrary: cur)
  case Nil
  then show ?case by simp
next
  case (Cons c cs)
  from Cons.prems obtain nxt where nxt: "cur = Some c" "prev c = Some nxt" "chain prev nxt cs"
    by (auto simp: chain_Cons)
  have "c \<notin> set cs"
  proof
    assume "c \<in> set cs"
    then obtain as bs where cs: "cs = as @ c # bs" by (auto simp: in_set_conv_decomp)
    with Cons.prems have "chain prev cur ((c # as) @ c # bs)" by simp
    then have "chain prev (Some c) (c # bs)" by (rule chain_suffix)
    with Cons.prems nxt(1) have "c # cs = c # bs"
      using chain_unique [of prev "Some c" "c # cs" "c # bs"] by simp
    with cs show False by simp
  qed
  with Cons.IH [OF nxt(3)] show ?case by simp
qed

lemma chain_upd: "k \<notin> set cs \<Longrightarrow> chain (prev(k \<mapsto> z)) cur cs = chain prev cur cs"
  by (induction cs arbitrary: cur) (auto simp: chain_Cons)

lemma chain_hd: "chain prev (Some c) cs \<Longrightarrow> \<exists>rest. cs = c # rest"
  by (cases cs) (auto simp: chain_Cons)


section \<open>Invariants of the A* loop, for every graph\<close>

lemma astar_loop_rule:
  assumes "I st"
    and "\<And>st st'. I st \<Longrightarrow> pq st \<noteq> [] \<Longrightarrow> astar_body goal st = Continue st' \<Longrightarrow> I st'"
    and "\<And>st st'. I st \<Longrightarrow> pq st \<noteq> [] \<Longrightarrow> astar_body goal st = Break st' \<Longrightarrow> R (Inr st')"
    and "\<And>st e. I st \<Longrightarrow> pq st \<noteq> [] \<Longrightarrow> astar_body goal st = Raise e \<Longrightarrow> R (Inl e)"
    and "\<And>st. I st \<Longrightarrow> pq st = [] \<Longrightarrow> R (Inr st)"
  shows "R (astar_loop goal st)"
  using assms
proof (induction goal st rule: astar_loop.induct)
  case (1 goal st)
  show ?case
  proof (cases "pq st = []")
    case True
    with "1.prems"(1,5) show ?thesis by simp
  next
    case False
    show ?thesis
    proof (cases "astar_body goal st")
      case (Raise e)
      with False "1.prems"(1,4) show ?thesis by simp
    next
      case (Break st')
      with False "1.prems"(1,3) show ?thesis by simp
    next
      case (Continue st')
      with False "1.prems"(1,2) have "I st'" by blast
      from "1.IH" [OF False Continue this "1.prems"(2-5)] False Continue
      show ?thesis by simp
    qed
  qed
qed

definition astar_improve :: "string \<Rightarrow> string \<Rightarrow> cost \<Rightarrow> string \<Rightarrow> astar_state \<Rightarrow> astar_state" where
  "astar_improve goal u c v st =
     st\<lparr>previous := (previous st)(v \<mapsto> Some u),
        g_score := (g_score st)(v \<mapsto> c),
        f_score := (f_score st)(v \<mapsto> cost_add c (heuristic (graph st) goal v)),
        pq := heappush (pq st) (cost_add c (heuristic (graph st) goal v), v)\<rparr>"

lemma astar_improve_simps [simp]:
  "graph (astar_improve goal u c v st) = graph st"
  "visited (astar_improve goal u c v st) = visited st"
  "g_score (astar_improve goal u c v st) = (g_score st)(v \<mapsto> c)"
  "previous (astar_improve goal u c v st) = (previous st)(v \<mapsto> Some u)"
  "set (pq (astar_improve goal u c v st))
     = insert (cost_add c (heuristic (graph st) goal v), v) (set (pq st))"
  by (simp_all add: astar_improve_def heappush_def)

lemma astar_relax_Cons:
  "astar_relax goal u ((v, w) # rest) st =
     (if v \<in> visited st then astar_relax goal u rest st
      else case g_score st u of
             None \<Rightarrow> Inl KeyError
           | Some gu \<Rightarrow>
               (case g_score st v of
                  None \<Rightarrow> Inl KeyError
                | Some gv \<Rightarrow>
                    if cost_add gu w < gv
                    then astar_relax goal u rest (astar_improve goal u (cost_add gu w) v st)
                    else astar_relax goal u rest st))"
  by (auto simp: astar_improve_def Let_def split: option.splits)

lemma astar_relax_rule:
  assumes "astar_relax goal u ns st = Inr st'"
    and "I st"
    and "\<And>st v w gu gv. I st \<Longrightarrow> (v, w) \<in> set ns \<Longrightarrow> v \<notin> visited st \<Longrightarrow>
           g_score st u = Some gu \<Longrightarrow> g_score st v = Some gv \<Longrightarrow> cost_add gu w < gv \<Longrightarrow>
           I (astar_improve goal u (cost_add gu w) v st)"
  shows "I st'"
  using assms
proof (induction ns arbitrary: st)
  case Nil
  then show ?case by simp
next
  case (Cons a ns)
  obtain v w where a: "a = (v, w)" by (cases a)
  have step: "\<And>st v w gu gv. I st \<Longrightarrow> (v, w) \<in> set ns \<Longrightarrow> v \<notin> visited st \<Longrightarrow>
           g_score st u = Some gu \<Longrightarrow> g_score st v = Some gv \<Longrightarrow> cost_add gu w < gv \<Longrightarrow>
           I (astar_improve goal u (cost_add gu w) v st)"
    using Cons.prems(3) by simp
  show ?case
  proof (cases "v \<in> visited st")
    case True
    with Cons.prems(1) have r: "astar_relax goal u ns st = Inr st'"
      unfolding a astar_relax_Cons by simp
    from Cons.IH [OF r Cons.prems(2) step] show ?thesis .
  next
    case False
    with Cons.prems(1) obtain gu gv
      where gu: "g_score st u = Some gu" and gv: "g_score st v = Some gv"
      unfolding a astar_relax_Cons by (auto split: option.splits)
    show ?thesis
    proof (cases "cost_add gu w < gv")
      case True
      with Cons.prems(1) False gu gv
      have r: "astar_relax goal u ns (astar_improve goal u (cost_add gu w) v st) = Inr st'"
        unfolding a astar_relax_Cons by simp
      from Cons.prems(2) Cons.prems(3) [of st v w gu gv] False gu gv True
      have "I (astar_improve goal u (cost_add gu w) v st)" by (simp add: a)
      from Cons.IH [OF r this step] show ?thesis .
    next
      case lt: False
      with Cons.prems(1) False gu gv have r: "astar_relax goal u ns st = Inr st'"
        unfolding a astar_relax_Cons by simp
      from Cons.IH [OF r Cons.prems(2) step] show ?thesis .
    qed
  qed
qed

definition a_dom :: "Graph \<Rightarrow> astar_state \<Rightarrow> bool" where
  "a_dom g st \<longleftrightarrow>
     graph st = g \<and> dom (g_score st) = dom (map_of (nodes g)) \<and>
     dom (previous st) = dom (map_of (nodes g))"

definition a_queue :: "Graph \<Rightarrow> string \<Rightarrow> astar_state \<Rightarrow> bool" where
  "a_queue g t st \<longleftrightarrow>
     (\<forall>f u. (f, u) \<in> set (pq st) \<longrightarrow>
        (\<exists>c. g_score st u = Some (Fin c) \<and> Fin (c + heuristic g t u) \<le> f))"

definition a_dist :: "Graph \<Rightarrow> string \<Rightarrow> astar_state \<Rightarrow> bool" where
  "a_dist g s st \<longleftrightarrow>
     (\<forall>v c. g_score st v = Some (Fin c) \<longrightarrow>
        (\<exists>es. walk g s es v \<and> walk_weight es = c) \<and>
        (v = s \<or> (\<exists>u. previous st v = Some (Some u))))"

definition a_prev :: "Graph \<Rightarrow> astar_state \<Rightarrow> bool" where
  "a_prev g st \<longleftrightarrow>
     (\<forall>v u. previous st v = Some (Some u) \<longrightarrow>
        v \<in> fst ` set (get_neighbors g u) \<and>
        finite_at (g_score st) u \<and> finite_at (g_score st) v)"

definition a_front :: "Graph \<Rightarrow> string \<Rightarrow> astar_state \<Rightarrow> bool" where
  "a_front g t st \<longleftrightarrow>
     (\<forall>v c. v \<notin> visited st \<longrightarrow> g_score st v = Some (Fin c) \<longrightarrow>
        (Fin (c + heuristic g t v), v) \<in> set (pq st))"

definition a_closed :: "Graph \<Rightarrow> string set \<Rightarrow> astar_state \<Rightarrow> bool" where
  "a_closed g X st \<longleftrightarrow>
     (\<forall>u. u \<in> visited st \<longrightarrow> finite_at (g_score st) u) \<and>
     (\<forall>u v w. u \<in> visited st \<longrightarrow> u \<notin> X \<longrightarrow> (v, w) \<in> set (get_neighbors g u) \<longrightarrow>
        finite_at (g_score st) v)"

definition a_chain :: "astar_state \<Rightarrow> bool" where
  "a_chain st \<longleftrightarrow>
     (\<forall>v. finite_at (g_score st) v \<longrightarrow>
        (\<exists>rest. chain (previous st) (Some v) (v # rest) \<and> set rest \<subseteq> visited st))"

definition astar_inv :: "Graph \<Rightarrow> string \<Rightarrow> string \<Rightarrow> string set \<Rightarrow> astar_state \<Rightarrow> bool" where
  "astar_inv g s t X st \<longleftrightarrow>
     a_dom g st \<and> a_queue g t st \<and> a_dist g s st \<and> a_prev g st \<and> a_front g t st \<and>
     a_closed g X st \<and> a_chain st \<and> finite_at (g_score st) s"

lemma a_queue_improve:
  assumes "a_queue g t st" and "graph st = g" and "g_score st v = Some gv" and "Fin c < gv"
  shows "a_queue g t (astar_improve t u (Fin c) v st)"
  unfolding a_queue_def
proof (intro allI impI)
  fix f a
  assume "(f, a) \<in> set (pq (astar_improve t u (Fin c) v st))"
  with assms(2) consider "(f, a) = (Fin (c + heuristic g t v), v)" | "(f, a) \<in> set (pq st)"
    by auto
  then show "\<exists>c'. g_score (astar_improve t u (Fin c) v st) a = Some (Fin c') \<and>
               Fin (c' + heuristic g t a) \<le> f"
  proof cases
    case 1
    then show ?thesis by simp
  next
    case 2
    with assms(1) obtain c' where c': "g_score st a = Some (Fin c')" "Fin (c' + heuristic g t a) \<le> f"
      unfolding a_queue_def by blast
    show ?thesis
    proof (cases "a = v")
      case True
      with c' assms(3,4) have "c < c'" by (auto simp: less_cost_def)
      with c'(2) True have "Fin (c + heuristic g t v) \<le> f"
        by (cases f) (auto simp: less_eq_cost_def)
      with True show ?thesis by simp
    next
      case False
      with c' show ?thesis by simp
    qed
  qed
qed

lemma a_chain_improve:
  assumes ch: "a_chain st" and u: "u \<in> visited st" and v: "v \<notin> visited st"
    and fu: "finite_at (g_score st) u"
  shows "a_chain (astar_improve t u (Fin c) v st)"
  unfolding a_chain_def
proof (intro allI impI)
  fix a
  assume fa: "finite_at (g_score (astar_improve t u (Fin c) v st)) a"
  from ch fu obtain ru where ru: "chain (previous st) (Some u) (u # ru)" "set ru \<subseteq> visited st"
    unfolding a_chain_def by blast
  show "\<exists>rest. chain (previous (astar_improve t u (Fin c) v st)) (Some a) (a # rest) \<and>
          set rest \<subseteq> visited (astar_improve t u (Fin c) v st)"
  proof (cases "a = v")
    case True
    from ru u v have "v \<notin> set (u # ru)" by auto
    with ru(1) have "chain ((previous st)(v \<mapsto> Some u)) (Some u) (u # ru)"
      by (subst chain_upd) simp_all
    with True ru(2) u show ?thesis
      by (intro exI [of _ "u # ru"]) (simp add: chain_Cons [of _ _ v])
  next
    case False
    with fa have "finite_at (g_score st) a" by (simp add: finite_at_def)
    with ch obtain ra where ra: "chain (previous st) (Some a) (a # ra)" "set ra \<subseteq> visited st"
      unfolding a_chain_def by blast
    with v False have "v \<notin> set (a # ra)" by auto
    with ra(1) have "chain ((previous st)(v \<mapsto> Some u)) (Some a) (a # ra)"
      by (subst chain_upd) simp_all
    with ra(2) show ?thesis by auto
  qed
qed

lemma astar_inv_improve:
  assumes inv: "astar_inv g s t X st" and u: "u \<in> visited st" and v: "v \<notin> visited st"
    and e: "(v, w) \<in> set (get_neighbors g u)"
    and gu: "g_score st u = Some (Fin cu)"
    and gv: "g_score st v = Some gv" and lt: "Fin (cu + w) < gv"
  shows "astar_inv g s t X (astar_improve t u (Fin (cu + w)) v st)"
proof -
  let ?st' = "astar_improve t u (Fin (cu + w)) v st"
  from inv have gr: "graph st = g" by (simp add: astar_inv_def a_dom_def)
  from inv gu obtain es where es: "walk g s es u" "walk_weight es = cu"
    unfolding astar_inv_def a_dist_def by blast
  from walk_snoc [OF es(1) e] es(2)
  have wv: "\<exists>es. walk g s es v \<and> walk_weight es = cu + w"
    by (intro exI [of _ "es @ [(v, w)]"]) simp
  from gu have fu: "finite_at (g_score st) u" by (simp add: finite_at_def)
  from e have nb: "v \<in> fst ` set (get_neighbors g u)" by force
  from inv gv have "a_dom g ?st'"
    by (auto simp: astar_inv_def a_dom_def)
  moreover from inv have "a_queue g t ?st'"
    by (auto simp: astar_inv_def intro: a_queue_improve [OF _ gr gv lt])
  moreover from inv wv have "a_dist g s ?st'"
    by (auto simp: astar_inv_def a_dist_def)
  moreover from inv nb fu have "a_prev g ?st'"
    by (auto simp: astar_inv_def a_prev_def finite_at_upd)
  moreover from inv gr have "a_front g t ?st'"
    by (auto simp: astar_inv_def a_front_def)
  moreover from inv have "a_closed g X ?st'"
    unfolding astar_inv_def a_closed_def astar_improve_simps
    by (meson finite_at_upd(1))
  moreover from inv have "a_chain ?st'"
    by (auto simp: astar_inv_def intro: a_chain_improve [OF _ u v fu])
  moreover from inv have "finite_at (g_score ?st') s"
    by (auto simp: astar_inv_def finite_at_upd)
  ultimately show ?thesis by (simp add: astar_inv_def)
qed


lemma astar_relax_inv:
  assumes r: "astar_relax t u ns st = Inr st'"
    and inv: "astar_inv g s t X st" and u: "u \<in> visited st"
    and ns: "set ns \<subseteq> set (get_neighbors g u)"
  shows "astar_inv g s t X st' \<and> visited st' = visited st"
proof (rule astar_relax_rule [OF r,
      where I = "\<lambda>st0. astar_inv g s t X st0 \<and> visited st0 = visited st"])
  from inv show "astar_inv g s t X st \<and> visited st = visited st" by simp
next
  fix st0 :: astar_state and v w gu gv
  assume a: "astar_inv g s t X st0 \<and> visited st0 = visited st" "(v, w) \<in> set ns"
    "v \<notin> visited st0" "g_score st0 u = Some gu" "g_score st0 v = Some gv" "cost_add gu w < gv"
  from a(1) u have "finite_at (g_score st0) u"
    by (simp add: astar_inv_def a_closed_def)
  with a(4) obtain cu where cu: "gu = Fin cu" by (auto simp: finite_at_iff)
  from a(2) ns have e: "(v, w) \<in> set (get_neighbors g u)" by blast
  from a(1) u have u0: "u \<in> visited st0" by simp
  from astar_inv_improve [OF _ u0 a(3) e, of s t X cu gv] a cu
  show "astar_inv g s t X (astar_improve t u (cost_add gu w) v st0) \<and>
        visited (astar_improve t u (cost_add gu w) v st0) = visited st"
    by simp
qed

lemma astar_relax_mono:
  assumes r: "astar_relax t u ns st = Inr st'" and c: "g_score st a = Some (Fin c)"
  shows "\<exists>c'. g_score st' a = Some (Fin c') \<and> c' \<le> c"
proof (rule astar_relax_rule [OF r, where I = "\<lambda>st. \<exists>c'. g_score st a = Some (Fin c') \<and> c' \<le> c"])
  from c show "\<exists>c'. g_score st a = Some (Fin c') \<and> c' \<le> c" by simp
next
  fix st0 :: astar_state and v w gu gv
  assume a: "\<exists>c'. g_score st0 a = Some (Fin c') \<and> c' \<le> c"
    "g_score st0 v = Some gv" "cost_add gu w < gv"
  then show "\<exists>c'. g_score (astar_improve t u (cost_add gu w) v st0) a = Some (Fin c') \<and> c' \<le> c"
    by (cases "a = v"; cases gu) (auto simp: less_cost_def)
qed

lemma astar_relax_settled:
  assumes r: "astar_relax t u ns st = Inr st'" and a: "a \<in> visited st"
  shows "g_score st' a = g_score st a \<and> previous st' a = previous st a \<and> visited st' = visited st"
proof (rule astar_relax_rule [OF r,
      where I = "\<lambda>st0. g_score st0 a = g_score st a \<and> previous st0 a = previous st a \<and>
                   visited st0 = visited st"])
  show "g_score st a = g_score st a \<and> previous st a = previous st a \<and> visited st = visited st"
    by simp
next
  fix st0 :: astar_state and v w gu gv
  assume "g_score st0 a = g_score st a \<and> previous st0 a = previous st a \<and>
          visited st0 = visited st" "v \<notin> visited st0"
  with a show "g_score (astar_improve t u (cost_add gu w) v st0) a = g_score st a \<and>
        previous (astar_improve t u (cost_add gu w) v st0) a = previous st a \<and>
        visited (astar_improve t u (cost_add gu w) v st0) = visited st"
    by auto
qed

lemma astar_relax_done:
  assumes "astar_relax t u ns st = Inr st'" and "(v, w) \<in> set ns"
    and "u \<in> visited st" and "g_score st u = Some (Fin cu)"
  shows "v \<in> visited st \<or> (\<exists>c. g_score st' v = Some (Fin c) \<and> c \<le> cu + w)"
  using assms
proof (induction ns arbitrary: st)
  case Nil
  then show ?case by simp
next
  case (Cons a ns)
  obtain v0 w0 where a: "a = (v0, w0)" by (cases a)
  show ?case
  proof (cases "v0 \<in> visited st")
    case True
    with Cons.prems(1) have r: "astar_relax t u ns st = Inr st'"
      unfolding a astar_relax_Cons by simp
    show ?thesis
    proof (cases "(v, w) \<in> set ns")
      case in_ns: True
      from Cons.IH [OF r in_ns Cons.prems(3,4)] show ?thesis .
    next
      case False
      with Cons.prems(2) a True show ?thesis by auto
    qed
  next
    case False
    with Cons.prems(1,4) obtain gv where gv: "g_score st v0 = Some gv"
      unfolding a astar_relax_Cons by (auto split: option.splits)
    define st1 where
      "st1 = (if Fin (cu + w0) < gv then astar_improve t u (Fin (cu + w0)) v0 st else st)"
    from Cons.prems(1,4) False gv have r: "astar_relax t u ns st1 = Inr st'"
      unfolding a astar_relax_Cons st1_def by (simp split: if_splits)
    from False Cons.prems(3) have "v0 \<noteq> u" by auto
    with Cons.prems(3,4) have st1: "u \<in> visited st1" "g_score st1 u = Some (Fin cu)"
      "visited st1 = visited st"
      by (auto simp: st1_def)
    show ?thesis
    proof (cases "(v, w) \<in> set ns")
      case True
      from Cons.IH [OF r True st1(1,2)] st1(3) show ?thesis by simp
    next
      case nin: False
      with Cons.prems(2) a have vw: "v = v0" "w = w0" by auto
      have "\<exists>c. g_score st1 v0 = Some (Fin c) \<and> c \<le> cu + w0"
        using gv by (cases gv) (auto simp: st1_def less_cost_def)
      then obtain c where "g_score st1 v0 = Some (Fin c)" "c \<le> cu + w0" by blast
      with astar_relax_mono [OF r this(1)] vw show ?thesis by fastforce
    qed
  qed
qed

lemma astar_body_unfold:
  assumes "heappop (pq st) = ((f, u), h)"
  shows "astar_body t st =
     (if u \<in> visited st then Continue (st\<lparr>pq := h\<rparr>)
      else if u = t then Break (st\<lparr>pq := h, visited := insert u (visited st)\<rparr>)
      else case astar_relax t u (get_neighbors (graph st) u)
                  (st\<lparr>pq := h, visited := insert u (visited st)\<rparr>) of
             Inl e \<Rightarrow> Raise e
           | Inr st3 \<Rightarrow> Continue st3)"
  using assms by (auto simp: astar_body_def Let_def)

lemma astar_pop_inv:
  assumes inv: "astar_inv g s t X st" and ne: "pq st \<noteq> []"
    and pop: "heappop (pq st) = ((f, u), h)" and u: "u \<in> visited st"
  shows "astar_inv g s t X (st\<lparr>pq := h\<rparr>)"
proof -
  note hf = heappop_facts [OF ne pop]
  have "a_front g t (st\<lparr>pq := h\<rparr>)"
    unfolding a_front_def
  proof (intro allI impI)
    fix v c
    assume a: "v \<notin> visited (st\<lparr>pq := h\<rparr>)" "g_score (st\<lparr>pq := h\<rparr>) v = Some (Fin c)"
    with inv have "(Fin (c + heuristic g t v), v) \<in> set (pq st)"
      by (simp add: astar_inv_def a_front_def)
    moreover from a u have "(Fin (c + heuristic g t v), v) \<noteq> (f, u)" by auto
    ultimately show "(Fin (c + heuristic g t v), v) \<in> set (pq (st\<lparr>pq := h\<rparr>))"
      using hf(5) by simp
  qed
  moreover from inv hf(2) have "a_queue g t (st\<lparr>pq := h\<rparr>)"
    unfolding astar_inv_def a_queue_def by (simp add: subset_iff)
  moreover from inv have "a_dom g (st\<lparr>pq := h\<rparr>)" "a_dist g s (st\<lparr>pq := h\<rparr>)"
    "a_prev g (st\<lparr>pq := h\<rparr>)" "a_closed g X (st\<lparr>pq := h\<rparr>)" "a_chain (st\<lparr>pq := h\<rparr>)"
    "finite_at (g_score (st\<lparr>pq := h\<rparr>)) s"
    by (simp_all add: astar_inv_def a_dom_def a_dist_def a_prev_def a_closed_def a_chain_def)
  ultimately show ?thesis by (simp add: astar_inv_def)
qed

lemma astar_visit_inv:
  assumes inv: "astar_inv g s t X st" and ne: "pq st \<noteq> []"
    and pop: "heappop (pq st) = ((f, u), h)" and u: "u \<notin> visited st"
  shows "astar_inv g s t (insert u X) (st\<lparr>pq := h, visited := insert u (visited st)\<rparr>)"
    (is "astar_inv g s t _ ?st2")
proof -
  note hf = heappop_facts [OF ne pop]
  have "a_front g t ?st2"
    unfolding a_front_def
  proof (intro allI impI)
    fix v c
    assume a: "v \<notin> visited ?st2" "g_score ?st2 v = Some (Fin c)"
    with inv have "(Fin (c + heuristic g t v), v) \<in> set (pq st)"
      by (simp add: astar_inv_def a_front_def)
    moreover from a have "(Fin (c + heuristic g t v), v) \<noteq> (f, u)" by auto
    ultimately show "(Fin (c + heuristic g t v), v) \<in> set (pq ?st2)"
      using hf(5) by simp
  qed
  moreover from inv hf(2) have "a_queue g t ?st2"
    unfolding astar_inv_def a_queue_def by (simp add: subset_iff)
  moreover from inv hf(1) have "finite_at (g_score st) u"
    unfolding astar_inv_def a_queue_def finite_at_iff by blast
  with inv have "a_closed g (insert u X) ?st2"
    unfolding astar_inv_def a_closed_def by auto
  moreover have "a_chain ?st2"
    unfolding a_chain_def
  proof (intro allI impI)
    fix v
    assume "finite_at (g_score ?st2) v"
    then have "finite_at (g_score st) v" by simp
    with inv obtain rest where "chain (previous st) (Some v) (v # rest)" "set rest \<subseteq> visited st"
      unfolding astar_inv_def a_chain_def by blast
    then show "\<exists>rest. chain (previous ?st2) (Some v) (v # rest) \<and> set rest \<subseteq> visited ?st2"
      by (intro exI [of _ rest]) auto
  qed
  moreover from inv have "a_dom g ?st2" "a_dist g s ?st2" "a_prev g ?st2"
    "finite_at (g_score ?st2) s"
    by (simp_all add: astar_inv_def a_dom_def a_dist_def a_prev_def)
  ultimately show ?thesis by (simp add: astar_inv_def)
qed


lemma a_closed_drop:
  assumes "a_closed g (insert u X) st"
    and "\<And>v w. (v, w) \<in> set (get_neighbors g u) \<Longrightarrow> finite_at (g_score st) v"
  shows "a_closed g X st"
  using assms unfolding a_closed_def by blast

lemma astar_body_inv:
  assumes inv: "astar_inv g s t {t} st" and ne: "pq st \<noteq> []"
  shows "(astar_body t st = Continue st' \<longrightarrow> astar_inv g s t {t} st') \<and>
         (astar_body t st = Break st' \<longrightarrow> astar_inv g s t {t} st' \<and> t \<in> visited st')"
proof -
  obtain f u h where pop: "heappop (pq st) = ((f, u), h)"
    by (metis prod.exhaust)
  note hf = heappop_facts [OF ne pop]
  note body = astar_body_unfold [OF pop, of t]
  show ?thesis
  proof (cases "u \<in> visited st")
    case True
    with body astar_pop_inv [OF inv ne pop True] show ?thesis by auto
  next
    case False
    let ?st2 = "st\<lparr>pq := h, visited := insert u (visited st)\<rparr>"
    note inv2 = astar_visit_inv [OF inv ne pop False]
    show ?thesis
    proof (cases "u = t")
      case True
      with body False inv2 show ?thesis by auto
    next
      case ut: False
      from inv have gr: "graph st = g" by (simp add: astar_inv_def a_dom_def)
      show ?thesis
      proof (cases "astar_relax t u (get_neighbors g u) ?st2")
        case (Inl e)
        with body False ut gr show ?thesis by simp
      next
        case (Inr st3)
        from inv hf(1) obtain cu where cu: "g_score st u = Some (Fin cu)"
          unfolding astar_inv_def a_queue_def by blast
        have i3: "astar_inv g s t {u, t} st3 \<and> visited st3 = visited ?st2"
          by (rule astar_relax_inv [OF Inr inv2]) simp_all
        have "finite_at (g_score st3) v" if e: "(v, w) \<in> set (get_neighbors g u)" for v w
        proof -
          from astar_relax_done [OF Inr e, of cu] cu
          have "v \<in> visited ?st2 \<or> (\<exists>c. g_score st3 v = Some (Fin c) \<and> c \<le> cu + w)"
            by simp
          with i3 show ?thesis
            by (auto simp: finite_at_iff astar_inv_def a_closed_def)
        qed
        with i3 have "astar_inv g s t {t} st3"
          unfolding astar_inv_def by (blast intro: a_closed_drop)
        with body False ut gr Inr show ?thesis by auto
      qed
    qed
  qed
qed

lemma astar_init_inv:
  assumes "map_of (nodes g) s \<noteq> None"
  shows "astar_inv g s t X (astar_init g s t)"
proof -
  have G: "g_score (astar_init g s t) v = Some (Fin c) \<longleftrightarrow> v = s \<and> c = 0" for v c
    by (auto simp: astar_init_def map_of_const_map)
  have F: "finite_at (g_score (astar_init g s t)) v \<longleftrightarrow> v = s" for v
    unfolding finite_at_iff G by simp
  have P: "previous (astar_init g s t) v \<noteq> Some (Some u)" for v u
    by (auto simp: astar_init_def map_of_const_map)
  have Ps: "previous (astar_init g s t) s = Some None"
    using assms by (auto simp: astar_init_def map_of_const_map)
  have "a_dom g (astar_init g s t)"
    using assms by (auto simp: a_dom_def astar_init_def dom_map_const)
  moreover have "a_queue g t (astar_init g s t)"
    unfolding a_queue_def G by (auto simp: astar_init_def)
  moreover have "a_dist g s (astar_init g s t)"
    unfolding a_dist_def G by (auto intro: exI [of _ "[]"])
  moreover have "a_prev g (astar_init g s t)"
    unfolding a_prev_def using P by simp
  moreover have "a_front g t (astar_init g s t)"
    unfolding a_front_def G by (simp add: astar_init_def)
  moreover have "a_closed g X (astar_init g s t)"
    by (simp add: a_closed_def astar_init_def)
  moreover have "a_chain (astar_init g s t)"
    unfolding a_chain_def F using Ps by (auto simp: chain_Cons intro: exI [of _ "[]"])
  moreover have "finite_at (g_score (astar_init g s t)) s"
    unfolding F by simp
  ultimately show ?thesis by (simp add: astar_inv_def)
qed

lemma astar_loop_inv:
  assumes "astar_inv g s t {t} st" and "astar_loop t st = Inr st'"
  shows "astar_inv g s t {t} st' \<and> (pq st' = [] \<or> t \<in> visited st')"
proof -
  have "case astar_loop t st of
          Inl e \<Rightarrow> True
        | Inr st' \<Rightarrow> astar_inv g s t {t} st' \<and> (pq st' = [] \<or> t \<in> visited st')"
  proof (rule astar_loop_rule [where I = "astar_inv g s t {t}"])
    show "astar_inv g s t {t} st" by (rule assms(1))
  next
    fix st0 st1 :: astar_state
    assume "astar_inv g s t {t} st0" "pq st0 \<noteq> []" "astar_body t st0 = Continue st1"
    with astar_body_inv [of g s t st0 st1] show "astar_inv g s t {t} st1" by simp
  next
    fix st0 st1 :: astar_state
    assume "astar_inv g s t {t} st0" "pq st0 \<noteq> []" "astar_body t st0 = Break st1"
    with astar_body_inv [of g s t st0 st1]
    show "case Inr st1 of Inl e \<Rightarrow> True
          | Inr st' \<Rightarrow> astar_inv g s t {t} st' \<and> (pq st' = [] \<or> t \<in> visited st')"
      by simp
  next
    fix st0 :: astar_state and e :: error
    show "case Inl e of Inl e \<Rightarrow> True
          | Inr st' \<Rightarrow> astar_inv g s t {t} st' \<and> (pq st' = [] \<or> t \<in> visited st')"
      by simp
  next
    fix st0 :: astar_state
    assume "astar_inv g s t {t} st0" "pq st0 = []"
    then show "case Inr st0 of Inl e \<Rightarrow> True
          | Inr st' \<Rightarrow> astar_inv g s t {t} st' \<and> (pq st' = [] \<or> t \<in> visited st')"
      by simp
  qed
  with assms(2) show ?thesis by simp
qed

section \<open>The returned path\<close>

definition has_edge :: "Graph \<Rightarrow> string \<Rightarrow> string \<Rightarrow> bool" where
  "has_edge g a b = (b \<in> fst ` set (get_neighbors g a))"

lemma chain_None: "chain prev None cs \<longleftrightarrow> cs = []"
  by (cases cs) (auto simp: chain_Cons)

lemma chain_is_path:
  assumes prev: "\<And>v u. P v = Some (Some u) \<Longrightarrow> has_edge g u v \<and> finite_at G u"
    and dist: "\<And>v. finite_at G v \<Longrightarrow> v = s \<or> (\<exists>u. P v = Some (Some u))"
    and "chain P (Some v) cs" and "finite_at G v"
  shows "cs \<noteq> [] \<and> hd cs = v \<and> last cs = s \<and> successively (\<lambda>a b. has_edge g b a) cs"
  using assms(3,4)
proof (induction cs arbitrary: v)
  case Nil
  then show ?case by simp
next
  case (Cons c rest)
  from Cons.prems(1) obtain nxt where c: "c = v" "P v = Some nxt" "chain P nxt rest"
    by (auto simp: chain_Cons)
  show ?case
  proof (cases nxt)
    case None
    with c(3) have "rest = []" by (simp add: chain_None)
    moreover from dist [OF Cons.prems(2)] c(2) None have "v = s" by auto
    ultimately show ?thesis using c(1) by simp
  next
    case (Some u)
    with prev [of v u] c(2) have e: "has_edge g u v" and fu: "finite_at G u" by auto
    from Cons.IH [of u] c(3) Some fu
    have ih: "rest \<noteq> []" "hd rest = u" "last rest = s"
      "successively (\<lambda>a b. has_edge g b a) rest"
      by auto
    with e c(1) show ?thesis
      by (cases rest) auto
  qed
qed

lemma reconstruct_returns:
  assumes "reconstruct prev t c = Some (Inr (Some p, c'))"
  shows "\<exists>cs. chain prev (Some t) cs \<and> p = rev cs \<and> c' = c"
proof -
  from assms obtain path where "walk_back prev (Some t) [] = Some (Inr path)"
    and "p = rev path" "c' = c"
    by (auto simp: reconstruct_def split: option.splits sum.splits)
  with walk_back_returns [of prev "Some t" "[]" path] show ?thesis by auto
qed

lemma dijkstra_returns:
  assumes "dijkstra g s t = Some (Inr (Some p, c))"
  shows "\<exists>st d cs. map_of (nodes g) s \<noteq> None \<and> map_of (nodes g) t \<noteq> None \<and>
           dijkstra_loop t (dijkstra_init g s) = Inr st \<and>
           distances st t = Some (Fin d) \<and> c = Fin d \<and>
           chain (previous st) (Some t) cs \<and> p = rev cs"
proof -
  from assms have k: "map_of (nodes g) s \<noteq> None" "map_of (nodes g) t \<noteq> None"
    by (auto simp: dijkstra_def split: if_splits)
  with assms obtain st where st: "dijkstra_loop t (dijkstra_init g s) = Inr st"
    by (cases "dijkstra_loop t (dijkstra_init g s)") (auto simp: dijkstra_def)
  with assms k obtain c0 where c0: "distances st t = Some c0" "c0 \<noteq> PInf"
    "reconstruct (previous st) t c0 = Some (Inr (Some p, c))"
    by (cases "distances st t") (auto simp: dijkstra_def split: if_splits)
  from reconstruct_returns [OF c0(3)] obtain cs
    where "chain (previous st) (Some t) cs" "p = rev cs" "c = c0" by blast
  with k st c0 show ?thesis by (cases c0) auto
qed

lemma astar_returns:
  assumes "astar g s t = Some (Inr (Some p, c))"
  shows "\<exists>st d cs. map_of (nodes g) s \<noteq> None \<and> map_of (nodes g) t \<noteq> None \<and>
           astar_loop t (astar_init g s t) = Inr st \<and>
           g_score st t = Some (Fin d) \<and> c = Fin d \<and>
           chain (previous st) (Some t) cs \<and> p = rev cs"
proof -
  from assms have k: "map_of (nodes g) s \<noteq> None" "map_of (nodes g) t \<noteq> None"
    by (auto simp: astar_def split: if_splits)
  with assms obtain st where st: "astar_loop t (astar_init g s t) = Inr st"
    by (cases "astar_loop t (astar_init g s t)") (auto simp: astar_def)
  with assms k obtain c0 where c0: "g_score st t = Some c0" "c0 \<noteq> PInf"
    "reconstruct (previous st) t c0 = Some (Inr (Some p, c))"
    by (cases "g_score st t") (auto simp: astar_def split: if_splits)
  from reconstruct_returns [OF c0(3)] obtain cs
    where "chain (previous st) (Some t) cs" "p = rev cs" "c = c0" by blast
  with k st c0 show ?thesis by (cases c0) auto
qed

lemma chain_rev_path:
  assumes "cs \<noteq> [] \<and> hd cs = t \<and> last cs = s \<and> successively (\<lambda>a b. has_edge g b a) cs"
    and "distinct cs"
  shows "rev cs \<noteq> [] \<and> hd (rev cs) = s \<and> last (rev cs) = t \<and>
         successively (has_edge g) (rev cs) \<and> distinct (rev cs)"
  using assms by (simp add: hd_rev last_rev)

lemma dijkstra_path:
  assumes "dijkstra g s t = Some (Inr (Some p, c))"
  shows "p \<noteq> [] \<and> hd p = s \<and> last p = t \<and> successively (has_edge g) p \<and> distinct p"
proof -
  from dijkstra_returns [OF assms] obtain st d cs
    where k: "map_of (nodes g) s \<noteq> None"
      and st: "dijkstra_loop t (dijkstra_init g s) = Inr st"
      and d: "distances st t = Some (Fin d)"
      and cs: "chain (previous st) (Some t) cs" "p = rev cs"
    by blast
  from dijkstra_loop_inv [OF dijkstra_init_inv [OF k] st]
  have inv: "dijkstra_inv g s {t} st" ..
  have "cs \<noteq> [] \<and> hd cs = t \<and> last cs = s \<and> successively (\<lambda>a b. has_edge g b a) cs"
  proof (rule chain_is_path [where P = "previous st" and G = "distances st", OF _ _ cs(1)])
    show "finite_at (distances st) t" using d by (simp add: finite_at_def)
  next
    fix v u assume "previous st v = Some (Some u)"
    with inv show "has_edge g u v \<and> finite_at (distances st) u"
      by (simp add: dijkstra_inv_def d_prev_def has_edge_def)
  next
    fix v assume "finite_at (distances st) v"
    with inv show "v = s \<or> (\<exists>u. previous st v = Some (Some u))"
      unfolding dijkstra_inv_def d_dist_def finite_at_iff by blast
  qed
  from chain_rev_path [OF this chain_distinct [OF cs(1)]] cs(2) show ?thesis by simp
qed

lemma astar_path:
  assumes "astar g s t = Some (Inr (Some p, c))"
  shows "p \<noteq> [] \<and> hd p = s \<and> last p = t \<and> successively (has_edge g) p \<and> distinct p"
proof -
  from astar_returns [OF assms] obtain st d cs
    where k: "map_of (nodes g) s \<noteq> None"
      and st: "astar_loop t (astar_init g s t) = Inr st"
      and d: "g_score st t = Some (Fin d)"
      and cs: "chain (previous st) (Some t) cs" "p = rev cs"
    by blast
  from astar_loop_inv [OF astar_init_inv [OF k] st]
  have inv: "astar_inv g s t {t} st" ..
  have "cs \<noteq> [] \<and> hd cs = t \<and> last cs = s \<and> successively (\<lambda>a b. has_edge g b a) cs"
  proof (rule chain_is_path [where P = "previous st" and G = "g_score st", OF _ _ cs(1)])
    show "finite_at (g_score st) t" using d by (simp add: finite_at_def)
  next
    fix v u assume "previous st v = Some (Some u)"
    with inv show "has_edge g u v \<and> finite_at (g_score st) u"
      by (simp add: astar_inv_def a_prev_def has_edge_def)
  next
    fix v assume "finite_at (g_score st) v"
    with inv show "v = s \<or> (\<exists>u. previous st v = Some (Some u))"
      unfolding astar_inv_def a_dist_def finite_at_iff by blast
  qed
  from chain_rev_path [OF this chain_distinct [OF cs(1)]] cs(2) show ?thesis by simp
qed

text \<open>
  Claim C8. Whenever \<open>dijkstra\<close> or \<open>astar\<close> returns a path, that path is a walk of the
  graph: it starts at the start key, ends at the goal key, every two consecutive keys are
  joined by a stored edge from the first to the second, and no key occurs twice (the
  predecessor chain that the reconstruction followed is acyclic and ends at the start).
\<close>

theorem returned_path_is_walk:
  assumes "dijkstra g s t = Some (Inr (Some p, c)) \<or> astar g s t = Some (Inr (Some p, c))"
  shows "p \<noteq> [] \<and> hd p = s \<and> last p = t \<and> successively (has_edge g) p \<and> distinct p"
  using assms dijkstra_path astar_path by blast

theorem returned_path_is_walk_witness:
  "(dijkstra diamond ''A'' ''D'' = Some (Inr (Some [''A'', ''C'', ''D''], Fin 3)) \<or>
    astar diamond ''A'' ''D'' = Some (Inr (Some [''A'', ''C'', ''D''], Fin 3))) \<and>
   hd [''A'', ''C'', ''D''] = ''A'' \<and> last [''A'', ''C'', ''D''] = ''D'' \<and>
   successively (has_edge diamond) [''A'', ''C'', ''D''] \<and> distinct [''A'', ''C'', ''D'']"
proof -
  have h: "dijkstra diamond ''A'' ''D'' = Some (Inr (Some [''A'', ''C'', ''D''], Fin 3)) \<or>
    astar diamond ''A'' ''D'' = Some (Inr (Some [''A'', ''C'', ''D''], Fin 3))"
    using dijkstra_diamond by simp
  from returned_path_is_walk [OF h] h show ?thesis by blast
qed

section \<open>Graphs built through the interface\<close>

definition graph_inv :: "Graph \<Rightarrow> bool" where
  "graph_inv g \<longleftrightarrow>
     fst ` set (edges g) = fst ` set (nodes g) \<and>
     (\<forall>k es e. (k, es) \<in> set (edges g) \<longrightarrow> e \<in> set es \<longrightarrow>
        to_node e \<in> fst ` set (nodes g))"

lemma keys_dict_set: "fst ` set (dict_set k v ps) = insert k (fst ` set ps)"
  by (induction ps) auto

lemma set_dict_set: "p \<in> set (dict_set k v ps) \<Longrightarrow> p = (k, v) \<or> p \<in> set ps"
  by (induction ps) (auto split: if_splits)

lemma map_of_None_iff: "map_of ps k = None \<longleftrightarrow> k \<notin> fst ` set ps"
  by (simp add: map_of_eq_None_iff)

lemma graph_inv_empty: "graph_inv empty_graph"
  by (simp add: graph_inv_def empty_graph_def)

lemma graph_inv_add_node:
  assumes "graph_inv g"
  shows "graph_inv (snd (add_node g k cx cy nm))"
proof (cases "map_of (nodes g) k")
  case None
  have "to_node e \<in> fst ` set (dict_set k (mk_node k cx cy nm) (nodes g))"
    if "(k', es) \<in> set (dict_set k [] (edges g))" "e \<in> set es" for k' es e
  proof -
    from set_dict_set [OF that(1)] that(2) have "(k', es) \<in> set (edges g)" by auto
    with assms that(2) show ?thesis by (auto simp: graph_inv_def keys_dict_set)
  qed
  with assms None show ?thesis
    by (auto simp: add_node_def graph_inv_def keys_dict_set Let_def)
next
  case (Some n)
  with assms show ?thesis by (simp add: add_node_def)
qed

lemma nodes_add_node_mono:
  "fst ` set (nodes g) \<subseteq> fst ` set (nodes (snd (add_node g k cx cy nm)))"
  by (cases "map_of (nodes g) k") (auto simp: add_node_def keys_dict_set Let_def)

lemma nodes_add_node_key:
  "k \<in> fst ` set (nodes (snd (add_node g k cx cy nm)))"
proof (cases "map_of (nodes g) k")
  case None
  then show ?thesis by (simp add: add_node_def keys_dict_set Let_def)
next
  case (Some n)
  then have "(k, n) \<in> set (nodes g)" by (rule map_of_SomeD)
  then have "k \<in> fst ` set (nodes g)" by force
  with Some show ?thesis by (simp add: add_node_def)
qed

lemma graph_inv_append_edge:
  assumes inv: "graph_inv g" and k: "k \<in> fst ` set (nodes g)"
    and e: "to_node e \<in> fst ` set (nodes g)"
  shows "\<exists>g'. append_edge g k e = Inr g' \<and> graph_inv g' \<and> nodes g' = nodes g"
proof -
  from inv k have "k \<in> fst ` set (edges g)" by (simp add: graph_inv_def)
  then obtain es where es: "map_of (edges g) k = Some es"
    by (cases "map_of (edges g) k") (auto simp: map_of_None_iff)
  then have in_es: "(k, es) \<in> set (edges g)" by (rule map_of_SomeD)
  let ?g' = "g\<lparr>edges := dict_set k (es @ [e]) (edges g)\<rparr>"
  have "to_node e' \<in> fst ` set (nodes g)"
    if "(k', es') \<in> set (dict_set k (es @ [e]) (edges g))" "e' \<in> set es'" for k' es' e'
  proof -
    from set_dict_set [OF that(1)]
    consider "k' = k" "es' = es @ [e]" | "(k', es') \<in> set (edges g)" by auto
    then show ?thesis
    proof cases
      case 1
      with that(2) have "e' \<in> set es \<or> e' = e" by auto
      with inv in_es e show ?thesis by (auto simp: graph_inv_def)
    next
      case 2
      with inv that(2) show ?thesis by (auto simp: graph_inv_def)
    qed
  qed
  moreover from inv k have "fst ` set (dict_set k (es @ [e]) (edges g)) = fst ` set (nodes g)"
    by (auto simp: keys_dict_set graph_inv_def)
  ultimately have "graph_inv ?g'" by (simp add: graph_inv_def)
  with es show ?thesis by (simp add: append_edge_def)
qed

lemma graph_inv_add_edge:
  assumes "graph_inv g"
  shows "\<exists>g'. add_edge g a b w nm bi = Inr g' \<and> graph_inv g'"
proof -
  define g1 where "g1 = (if map_of (nodes g) a = None then snd (add_node g a 0 0 []) else g)"
  define g2 where "g2 = (if map_of (nodes g1) b = None then snd (add_node g1 b 0 0 []) else g1)"
  from assms have i1: "graph_inv g1" by (simp add: g1_def graph_inv_add_node)
  then have i2: "graph_inv g2" by (simp add: g2_def graph_inv_add_node)
  have a1: "a \<in> fst ` set (nodes g1)"
    by (auto simp: g1_def nodes_add_node_key map_of_None_iff)
  have b2: "b \<in> fst ` set (nodes g2)"
    by (auto simp: g2_def nodes_add_node_key map_of_None_iff)
  from a1 have a2: "a \<in> fst ` set (nodes g2)"
    using nodes_add_node_mono [of g1 b 0 0 "[]"] by (auto simp: g2_def)
  from graph_inv_append_edge [OF i2 a2, of "mk_edge a b w nm"] b2
  obtain g3 where g3: "append_edge g2 a (mk_edge a b w nm) = Inr g3" "graph_inv g3"
    "nodes g3 = nodes g2"
    by (auto simp: mk_edge_def)
  from graph_inv_append_edge [OF g3(2), of b "mk_edge b a w nm"] a2 b2 g3(3)
  obtain g4 where g4: "append_edge g3 b (mk_edge b a w nm) = Inr g4" "graph_inv g4"
    by (auto simp: mk_edge_def)
  have "add_edge g a b w nm bi = (if bi then Inr g4 else Inr g3)"
    using g3(1) g4(1) unfolding add_edge_def g1_def [symmetric] Let_def g2_def [symmetric]
    by simp
  with g3(2) g4(2) show ?thesis by auto
qed

lemma graph_inv_build:
  assumes "graph_inv g"
  shows "\<exists>g'. build g cs = Inr g' \<and> graph_inv g'"
  using assms
proof (induction cs arbitrary: g)
  case Nil
  then show ?case by simp
next
  case (Cons c cs)
  have "\<exists>g1. apply_op g c = Inr g1 \<and> graph_inv g1"
  proof (cases c)
    case (AddNode k cx cy nm)
    with Cons.prems show ?thesis by (simp add: graph_inv_add_node)
  next
    case (AddEdge a b w nm bi)
    with graph_inv_add_edge [OF Cons.prems] show ?thesis by simp
  qed
  then obtain g1 where g1: "apply_op g c = Inr g1" "graph_inv g1" by blast
  from Cons.IH [OF g1(2)] g1(1) show ?case by simp
qed

lemma graph_inv_neighbors:
  assumes "graph_inv g" and "(v, w) \<in> set (get_neighbors g u)"
  shows "map_of (nodes g) v \<noteq> None"
proof -
  from assms(2) obtain es where es: "map_of (edges g) u = Some es"
    by (cases "map_of (edges g) u") (auto simp: get_neighbors_def)
  with assms(2) obtain e where e: "e \<in> set es" "v = to_node e"
    by (auto simp: get_neighbors_def)
  from es have "(u, es) \<in> set (edges g)" by (rule map_of_SomeD)
  with assms(1) e show ?thesis by (auto simp: graph_inv_def map_of_None_iff)
qed

section \<open>No lookup fails on a graph built through the interface\<close>

lemma dijkstra_relax_no_error:
  assumes "d_dom g st" and "\<And>v w. (v, w) \<in> set ns \<Longrightarrow> map_of (nodes g) v \<noteq> None"
  shows "\<exists>st'. dijkstra_relax u d ns st = Inr st'"
  using assms
proof (induction ns arbitrary: st)
  case Nil
  then show ?case by simp
next
  case (Cons a ns)
  obtain v w where a: "a = (v, w)" by (cases a)
  from Cons.prems(2) [of v w] a have "v \<in> dom (map_of (nodes g))" by auto
  with Cons.prems(1) obtain dv where dv: "distances st v = Some dv"
    by (auto simp: d_dom_def)
  have rest: "\<And>v w. (v, w) \<in> set ns \<Longrightarrow> map_of (nodes g) v \<noteq> None"
    using Cons.prems(2) by (meson list.set_intros(2))
  show ?case
  proof (cases "Fin (d + w) < dv")
    case True
    from d_dom_improve [OF Cons.prems(1) dv]
    have "d_dom g (dijkstra_improve u (d + w) v st)" .
    from Cons.IH [OF this rest] dv True show ?thesis
      unfolding a dijkstra_relax_Cons by simp
  next
    case False
    from Cons.IH [OF Cons.prems(1) rest] dv False show ?thesis
      unfolding a dijkstra_relax_Cons by simp
  qed
qed

lemma dijkstra_body_no_error:
  assumes inv: "dijkstra_inv g s X st" and ne: "pq st \<noteq> []" and wf: "graph_inv g"
  shows "dijkstra_body t st \<noteq> Raise e"
proof -
  obtain d u h where pop: "heappop (pq st) = ((d, u), h)"
    by (metis prod.exhaust)
  note hf = heappop_facts [OF ne pop]
  let ?st2 = "st\<lparr>pq := h, visited := insert u (visited st)\<rparr>"
  from inv hf(1) obtain c where c: "distances st u = Some (Fin c)"
    unfolding dijkstra_inv_def d_queue_def by blast
  from inv have dom: "d_dom g ?st2" and gr: "graph st = g"
    by (simp_all add: dijkstra_inv_def d_dom_def)
  from dijkstra_relax_no_error [OF dom, of "get_neighbors g u" u d] graph_inv_neighbors [OF wf]
  obtain st3 where "dijkstra_relax u d (get_neighbors g u) ?st2 = Inr st3" by blast
  with c gr show ?thesis
    unfolding dijkstra_body_unfold [OF pop] by simp
qed

lemma dijkstra_loop_no_error:
  assumes inv: "dijkstra_inv g s {t} st" and wf: "graph_inv g"
  shows "\<exists>st'. dijkstra_loop t st = Inr st'"
proof (rule dijkstra_loop_rule [where I = "dijkstra_inv g s {t}"])
  show "dijkstra_inv g s {t} st" by (rule inv)
next
  fix st0 st1 :: dijkstra_state
  assume "dijkstra_inv g s {t} st0" "pq st0 \<noteq> []" "dijkstra_body t st0 = Continue st1"
  with dijkstra_body_inv [of g s t st0 st1] show "dijkstra_inv g s {t} st1" by simp
next
  fix st0 :: dijkstra_state and e
  assume "dijkstra_inv g s {t} st0" "pq st0 \<noteq> []" "dijkstra_body t st0 = Raise e"
  with dijkstra_body_no_error [OF _ _ wf, of s "{t}" st0 t e]
  show "\<exists>st'. Inl e = Inr st'" by simp
qed simp_all

lemma reconstruct_no_error:
  assumes prev: "\<And>v u. P v = Some (Some u) \<Longrightarrow> finite_at G u"
    and dist: "\<And>v. finite_at G v \<Longrightarrow> P v \<noteq> None"
    and t: "finite_at G t"
  shows "reconstruct P t c \<noteq> Some (Inl e)"
proof (cases "walk_back P (Some t) []")
  case None
  then show ?thesis by (simp add: reconstruct_def)
next
  case (Some r)
  have "\<exists>p. r = Inr p"
  proof (rule walk_back_no_error [OF Some, where S = "{v. finite_at G v}"])
    fix v assume "v \<in> {v. finite_at G v}"
    with dist [of v] prev [of v] show "\<exists>nxt. P v = Some nxt \<and> (\<forall>u. nxt = Some u \<longrightarrow> u \<in> {v. finite_at G v})"
      by auto
  next
    fix c assume "Some t = Some c"
    with t show "c \<in> {v. finite_at G v}" by simp
  qed
  with Some show ?thesis by (auto simp: reconstruct_def)
qed

lemma dijkstra_no_error:
  assumes wf: "graph_inv g"
  shows "dijkstra g s t \<noteq> Some (Inl e)"
proof (cases "map_of (nodes g) s = None \<or> map_of (nodes g) t = None")
  case True
  then show ?thesis by (simp add: dijkstra_def)
next
  case False
  then have k: "map_of (nodes g) s \<noteq> None" "map_of (nodes g) t \<noteq> None" by simp_all
  note inv0 = dijkstra_init_inv [OF k(1), of "{t}"]
  from dijkstra_loop_no_error [OF inv0 wf] obtain st
    where st: "dijkstra_loop t (dijkstra_init g s) = Inr st" by blast
  from dijkstra_loop_inv [OF inv0 st] have inv: "dijkstra_inv g s {t} st" ..
  from inv k(2) obtain c where c: "distances st t = Some c"
    by (auto simp: dijkstra_inv_def d_dom_def)
  show ?thesis
  proof (cases c)
    case PInf
    with False st c show ?thesis by (simp add: dijkstra_def)
  next
    case (Fin d)
    have "reconstruct (previous st) t c \<noteq> Some (Inl e)"
    proof (rule reconstruct_no_error [where G = "distances st"])
      fix v u assume "previous st v = Some (Some u)"
      with inv show "finite_at (distances st) u" by (simp add: dijkstra_inv_def d_prev_def)
    next
      fix v assume "finite_at (distances st) v"
      with inv show "previous st v \<noteq> None"
        unfolding dijkstra_inv_def d_dom_def finite_at_iff by (metis domI domIff)
    next
      from c Fin show "finite_at (distances st) t" by (simp add: finite_at_def)
    qed
    with False st c Fin show ?thesis by (simp add: dijkstra_def)
  qed
qed

lemma astar_relax_no_error:
  assumes "a_dom g st" and "map_of (nodes g) u \<noteq> None"
    and "\<And>v w. (v, w) \<in> set ns \<Longrightarrow> map_of (nodes g) v \<noteq> None"
  shows "\<exists>st'. astar_relax t u ns st = Inr st'"
  using assms
proof (induction ns arbitrary: st)
  case Nil
  then show ?case by simp
next
  case (Cons a ns)
  obtain v w where a: "a = (v, w)" by (cases a)
  have rest: "\<And>v w. (v, w) \<in> set ns \<Longrightarrow> map_of (nodes g) v \<noteq> None"
    using Cons.prems(3) by (meson list.set_intros(2))
  show ?case
  proof (cases "v \<in> visited st")
    case True
    from Cons.IH [OF Cons.prems(1,2) rest] True show ?thesis
      unfolding a astar_relax_Cons by simp
  next
    case False
    from Cons.prems(3) [of v w] a have "v \<in> dom (map_of (nodes g))" by auto
    with Cons.prems(1) obtain gv where gv: "g_score st v = Some gv"
      by (auto simp: a_dom_def)
    from Cons.prems(1,2) obtain gu where gu: "g_score st u = Some gu"
      unfolding a_dom_def by (metis domD domIff)
    show ?thesis
    proof (cases "cost_add gu w < gv")
      case True
      from Cons.prems(1) gv have "a_dom g (astar_improve t u (cost_add gu w) v st)"
        by (auto simp: a_dom_def)
      from Cons.IH [OF this Cons.prems(2) rest] False gu gv True show ?thesis
        unfolding a astar_relax_Cons by simp
    next
      case lt: False
      from Cons.IH [OF Cons.prems(1,2) rest] False gu gv lt show ?thesis
        unfolding a astar_relax_Cons by simp
    qed
  qed
qed

lemma astar_body_no_error:
  assumes inv: "astar_inv g s t X st" and ne: "pq st \<noteq> []" and wf: "graph_inv g"
  shows "astar_body t st \<noteq> Raise e"
proof -
  obtain f u h where pop: "heappop (pq st) = ((f, u), h)"
    by (metis prod.exhaust)
  note hf = heappop_facts [OF ne pop]
  let ?st2 = "st\<lparr>pq := h, visited := insert u (visited st)\<rparr>"
  from inv hf(1) obtain c where c: "g_score st u = Some (Fin c)"
    unfolding astar_inv_def a_queue_def by blast
  from inv have dom: "a_dom g ?st2" and gr: "graph st = g"
    by (simp_all add: astar_inv_def a_dom_def)
  from c have "u \<in> dom (g_score st)" by (simp add: domI)
  with inv have "u \<in> dom (map_of (nodes g))" by (simp add: astar_inv_def a_dom_def)
  then have "map_of (nodes g) u \<noteq> None" by (simp add: domIff)
  from astar_relax_no_error [OF dom this, of "get_neighbors g u" t] graph_inv_neighbors [OF wf]
  obtain st3 where "astar_relax t u (get_neighbors g u) ?st2 = Inr st3" by blast
  with gr show ?thesis
    unfolding astar_body_unfold [OF pop] by simp
qed


lemma astar_loop_no_error:
  assumes inv: "astar_inv g s t {t} st" and wf: "graph_inv g"
  shows "\<exists>st'. astar_loop t st = Inr st'"
proof (rule astar_loop_rule [where I = "astar_inv g s t {t}"])
  show "astar_inv g s t {t} st" by (rule inv)
next
  fix st0 st1 :: astar_state
  assume "astar_inv g s t {t} st0" "pq st0 \<noteq> []" "astar_body t st0 = Continue st1"
  with astar_body_inv [of g s t st0 st1] show "astar_inv g s t {t} st1" by simp
next
  fix st0 :: astar_state and e
  assume "astar_inv g s t {t} st0" "pq st0 \<noteq> []" "astar_body t st0 = Raise e"
  with astar_body_no_error [OF _ _ wf, of s t "{t}" st0 e]
  show "\<exists>st'. Inl e = Inr st'" by simp
qed simp_all

lemma astar_no_error:
  assumes wf: "graph_inv g"
  shows "astar g s t \<noteq> Some (Inl e)"
proof (cases "map_of (nodes g) s = None \<or> map_of (nodes g) t = None")
  case True
  then show ?thesis by (simp add: astar_def)
next
  case False
  then have k: "map_of (nodes g) s \<noteq> None" "map_of (nodes g) t \<noteq> None" by simp_all
  note inv0 = astar_init_inv [OF k(1), of t "{t}"]
  from astar_loop_no_error [OF inv0 wf] obtain st
    where st: "astar_loop t (astar_init g s t) = Inr st" by blast
  from astar_loop_inv [OF inv0 st] have inv: "astar_inv g s t {t} st" ..
  from inv k(2) obtain c where c: "g_score st t = Some c"
    by (auto simp: astar_inv_def a_dom_def)
  show ?thesis
  proof (cases c)
    case PInf
    with False st c show ?thesis by (simp add: astar_def)
  next
    case (Fin d)
    have "reconstruct (previous st) t c \<noteq> Some (Inl e)"
    proof (rule reconstruct_no_error [where G = "g_score st"])
      fix v u assume "previous st v = Some (Some u)"
      with inv show "finite_at (g_score st) u" by (simp add: astar_inv_def a_prev_def)
    next
      fix v assume "finite_at (g_score st) v"
      with inv show "previous st v \<noteq> None"
        unfolding astar_inv_def a_dom_def finite_at_iff by (metis domI domIff)
    next
      from c Fin show "finite_at (g_score st) t" by (simp add: finite_at_def)
    qed
    with False st c Fin show ?thesis by (simp add: astar_def)
  qed
qed

text \<open>
  Claim C6. A graph made from the empty graph by any sequence of \<open>add_node\<close> and
  \<open>add_edge\<close> calls is made without a failed lookup, and in it the destination key
  of every stored edge is a key of the node map. On such a graph no lookup of either search
  raises \<open>KeyError\<close>: the main loops do not end in \<open>KeyError\<close>, and neither does the
  whole call. (Nothing is said here about the errors of float arithmetic, which the model
  does not have.)
\<close>

theorem built_graph_safe:
  "\<exists>g. build empty_graph cs = Inr g \<and>
     (\<forall>k es e. (k, es) \<in> set (edges g) \<longrightarrow> e \<in> set es \<longrightarrow>
        map_of (nodes g) (to_node e) \<noteq> None) \<and>
     (\<forall>u v w. (v, w) \<in> set (get_neighbors g u) \<longrightarrow> map_of (nodes g) v \<noteq> None) \<and>
     (map_of (nodes g) s \<noteq> None \<longrightarrow>
        dijkstra_loop t (dijkstra_init g s) \<noteq> Inl KeyError \<and>
        astar_loop t (astar_init g s t) \<noteq> Inl KeyError) \<and>
     dijkstra g s t \<noteq> Some (Inl KeyError) \<and>
     astar g s t \<noteq> Some (Inl KeyError)"
proof -
  from graph_inv_build [OF graph_inv_empty, of cs] obtain g
    where g: "build empty_graph cs = Inr g" "graph_inv g" by blast
  from g(2) have "\<forall>k es e. (k, es) \<in> set (edges g) \<longrightarrow> e \<in> set es \<longrightarrow>
        map_of (nodes g) (to_node e) \<noteq> None"
    by (auto simp: graph_inv_def map_of_None_iff)
  moreover have "\<forall>u v w. (v, w) \<in> set (get_neighbors g u) \<longrightarrow> map_of (nodes g) v \<noteq> None"
    using graph_inv_neighbors [OF g(2)] by blast
  moreover have "dijkstra_loop t (dijkstra_init g s) \<noteq> Inl KeyError"
    if "map_of (nodes g) s \<noteq> None"
  proof -
    from dijkstra_loop_no_error [OF dijkstra_init_inv [OF that, of "{t}"] g(2)]
    obtain st where "dijkstra_loop t (dijkstra_init g s) = Inr st" by blast
    then show ?thesis by simp
  qed
  moreover have "astar_loop t (astar_init g s t) \<noteq> Inl KeyError"
    if "map_of (nodes g) s \<noteq> None"
  proof -
    from astar_loop_no_error [OF astar_init_inv [OF that, of t "{t}"] g(2)]
    obtain st where "astar_loop t (astar_init g s t) = Inr st" by blast
    then show ?thesis by simp
  qed
  moreover note dijkstra_no_error [OF g(2), of s t KeyError] astar_no_error [OF g(2), of s t KeyError]
  ultimately show ?thesis using g(1) by blast
qed

theorem built_graph_safe_witness:
  "build empty_graph diamond_ops = Inr diamond \<and>
   map_of (nodes diamond) ''A'' \<noteq> None \<and>
   dijkstra_loop ''D'' (dijkstra_init diamond ''A'') \<noteq> Inl KeyError \<and>
   astar_loop ''D'' (astar_init diamond ''A'' ''D'') \<noteq> Inl KeyError \<and>
   dijkstra diamond ''A'' ''D'' \<noteq> Some (Inl KeyError) \<and>
   astar diamond ''A'' ''D'' \<noteq> Some (Inl KeyError)"
proof -
  have h: "map_of (nodes diamond) ''A'' \<noteq> None" by (simp add: diamond_nodes)
  from built_graph_safe [of diamond_ops "''A''" "''D''"] build_diamond h
  show ?thesis by auto
qed

section \<open>Dijkstra with non-negative weights: settled nodes are final\<close>

definition d_chain :: "dijkstra_state \<Rightarrow> bool" where
  "d_chain st \<longleftrightarrow>
     (\<forall>v. finite_at (distances st) v \<longrightarrow>
        (\<exists>rest. chain (previous st) (Some v) (v # rest) \<and> set rest \<subseteq> visited st))"

definition d_relaxed :: "Graph \<Rightarrow> string set \<Rightarrow> dijkstra_state \<Rightarrow> bool" where
  "d_relaxed g X st \<longleftrightarrow>
     (\<forall>u v w cu. u \<in> visited st \<longrightarrow> u \<notin> X \<longrightarrow> (v, w) \<in> set (get_neighbors g u) \<longrightarrow>
        distances st u = Some (Fin cu) \<longrightarrow>
        (\<exists>c. distances st v = Some (Fin c) \<and> c \<le> cu + w))"

definition d_optimal :: "Graph \<Rightarrow> string \<Rightarrow> dijkstra_state \<Rightarrow> bool" where
  "d_optimal g s st \<longleftrightarrow>
     (\<forall>v es c. v \<in> visited st \<longrightarrow> walk g s es v \<longrightarrow> distances st v = Some (Fin c) \<longrightarrow>
        c \<le> walk_weight es)"

definition dijkstra_opt :: "Graph \<Rightarrow> string \<Rightarrow> string set \<Rightarrow> dijkstra_state \<Rightarrow> bool" where
  "dijkstra_opt g s X st \<longleftrightarrow>
     d_chain st \<and> d_relaxed g X st \<and> d_optimal g s st \<and> distances st s = Some (Fin 0)"

lemma dijkstra_pop_bound:
  assumes inv: "dijkstra_inv g s X st" and opt: "dijkstra_opt g s X st"
    and X: "X \<inter> visited st = {}" and nn: "nonneg_weights g"
    and ne: "pq st \<noteq> []" and pop: "heappop (pq st) = ((d, u), h)" and u: "u \<notin> visited st"
    and w: "walk g a es u" and a: "distances st a = Some (Fin ca)"
  shows "d \<le> ca + walk_weight es"
  using w a
proof (induction es arbitrary: a ca)
  case Nil
  then have "a = u" by simp
  with Nil.prems(2) inv u have "(ca, u) \<in> set (pq st)"
    by (simp add: dijkstra_inv_def d_front_def)
  with heappop_facts(4) [OF ne pop] have "(d, u) \<le> (ca, u)" by blast
  then show ?case by auto
next
  case (Cons e es)
  obtain v w where e: "e = (v, w)" by (cases e)
  from Cons.prems(1) e have edge: "(v, w) \<in> set (get_neighbors g a)" and rest: "walk g v es u"
    by simp_all
  from nonneg_neighbors [OF nn edge] have w0: "0 \<le> w" .
  from nonneg_walk [OF nn rest] have W0: "0 \<le> walk_weight es" .
  show ?case
  proof (cases "a \<in> visited st")
    case False
    with Cons.prems(2) inv have "(ca, a) \<in> set (pq st)"
      by (simp add: dijkstra_inv_def d_front_def)
    with heappop_facts(4) [OF ne pop] have "(d, u) \<le> (ca, a)" by blast
    then have "d \<le> ca" by auto
    with w0 W0 e show ?thesis by simp
  next
    case True
    with X have "a \<notin> X" by auto
    with opt True edge Cons.prems(2) obtain c where c: "distances st v = Some (Fin c)" "c \<le> ca + w"
      unfolding dijkstra_opt_def d_relaxed_def by blast
    from Cons.IH [OF rest c(1)] c(2) e show ?thesis by simp
  qed
qed

lemma dijkstra_opt_pop:
  assumes "dijkstra_opt g s X st"
  shows "dijkstra_opt g s X (st\<lparr>pq := h\<rparr>)"
  using assms by (simp add: dijkstra_opt_def d_chain_def d_relaxed_def d_optimal_def)

lemma dijkstra_opt_visit:
  assumes inv: "dijkstra_inv g s X st" and opt: "dijkstra_opt g s X st"
    and X: "X \<inter> visited st = {}" and nn: "nonneg_weights g"
    and ne: "pq st \<noteq> []" and pop: "heappop (pq st) = ((d, u), h)" and u: "u \<notin> visited st"
  shows "dijkstra_opt g s (insert u X) (st\<lparr>pq := h, visited := insert u (visited st)\<rparr>)"
    (is "dijkstra_opt g s _ ?st2")
proof -
  from dijkstra_pop_exact [OF inv ne pop u] have du: "distances st u = Some (Fin d)" .
  from opt have s0: "distances st s = Some (Fin 0)" by (simp add: dijkstra_opt_def)
  have "d_chain ?st2"
    unfolding d_chain_def
  proof (intro allI impI)
    fix v
    assume "finite_at (distances ?st2) v"
    then have "finite_at (distances st) v" by simp
    with opt obtain rest where "chain (previous st) (Some v) (v # rest)" "set rest \<subseteq> visited st"
      unfolding dijkstra_opt_def d_chain_def by blast
    then show "\<exists>rest. chain (previous ?st2) (Some v) (v # rest) \<and> set rest \<subseteq> visited ?st2"
      by (intro exI [of _ rest]) auto
  qed
  moreover from opt have "d_relaxed g (insert u X) ?st2"
    unfolding dijkstra_opt_def d_relaxed_def by auto
  moreover have "d_optimal g s ?st2"
    unfolding d_optimal_def
  proof (intro allI impI)
    fix v es c
    assume v: "v \<in> visited ?st2" and w: "walk g s es v" and c: "distances ?st2 v = Some (Fin c)"
    show "c \<le> walk_weight es"
    proof (cases "v = u")
      case True
      with dijkstra_pop_bound [OF inv opt X nn ne pop u _ s0, of es] w c du
      show ?thesis by simp
    next
      case False
      with v w c opt show ?thesis
        unfolding dijkstra_opt_def d_optimal_def by auto
    qed
  qed
  moreover from s0 have "distances ?st2 s = Some (Fin 0)" by simp
  ultimately show ?thesis by (simp add: dijkstra_opt_def)
qed

lemma dijkstra_improve_unsettled:
  assumes inv: "dijkstra_inv g s X st" and opt: "dijkstra_opt g s Y st"
    and e: "(v, w) \<in> set (get_neighbors g u)"
    and dv: "distances st v = Some dv" and lt: "Fin (d + w) < dv"
    and wu: "\<exists>es. walk g s es u \<and> walk_weight es = d"
  shows "v \<notin> visited st"
proof
  assume v: "v \<in> visited st"
  with inv have "finite_at (distances st) v"
    by (simp add: dijkstra_inv_def d_closed_def)
  with dv obtain c where c: "dv = Fin c"
    by (auto simp: finite_at_iff)
  from wu obtain es where es: "walk g s es u" "walk_weight es = d" by blast
  from walk_snoc [OF es(1) e] have "walk g s (es @ [(v, w)]) v" .
  with opt v dv c have "c \<le> walk_weight (es @ [(v, w)])"
    unfolding dijkstra_opt_def d_optimal_def by blast
  with es(2) lt c show False by (simp add: less_cost_def)
qed

lemma dijkstra_opt_improve:
  assumes inv: "dijkstra_inv g s X st" and opt: "dijkstra_opt g s Y st"
    and nn: "nonneg_weights g" and u: "u \<in> visited st"
    and e: "(v, w) \<in> set (get_neighbors g u)"
    and dv: "distances st v = Some dv" and lt: "Fin (d + w) < dv"
    and wu: "\<exists>es. walk g s es u \<and> walk_weight es = d"
  shows "dijkstra_opt g s Y (dijkstra_improve u (d + w) v st)"
    (is "dijkstra_opt g s Y ?st'")
proof -
  note v = dijkstra_improve_unsettled [OF inv opt e dv lt wu]
  from inv u have fu: "finite_at (distances st) u"
    by (simp add: dijkstra_inv_def d_closed_def)
  from wu obtain es where es: "walk g s es u" "walk_weight es = d" by blast
  from walk_snoc [OF es(1) e] have wv: "walk g s (es @ [(v, w)]) v" .
  have "d_chain ?st'"
    unfolding d_chain_def
  proof (intro allI impI)
    fix a
    assume fa: "finite_at (distances ?st') a"
    from opt fu obtain ru where ru: "chain (previous st) (Some u) (u # ru)" "set ru \<subseteq> visited st"
      unfolding dijkstra_opt_def d_chain_def by blast
    show "\<exists>rest. chain (previous ?st') (Some a) (a # rest) \<and> set rest \<subseteq> visited ?st'"
    proof (cases "a = v")
      case True
      from ru u v have "v \<notin> set (u # ru)" by auto
      with ru(1) have "chain ((previous st)(v \<mapsto> Some u)) (Some u) (u # ru)"
        by (subst chain_upd) simp_all
      with True ru(2) u show ?thesis
        by (intro exI [of _ "u # ru"]) (simp add: chain_Cons [of _ _ v])
    next
      case False
      with fa have "finite_at (distances st) a" by (simp add: finite_at_def)
      with opt obtain ra where ra: "chain (previous st) (Some a) (a # ra)" "set ra \<subseteq> visited st"
        unfolding dijkstra_opt_def d_chain_def by blast
      with v False have "v \<notin> set (a # ra)" by auto
      with ra(1) have "chain ((previous st)(v \<mapsto> Some u)) (Some a) (a # ra)"
        by (subst chain_upd) simp_all
      with ra(2) show ?thesis by auto
    qed
  qed
  moreover have "d_relaxed g Y ?st'"
    unfolding d_relaxed_def
  proof (intro allI impI)
    fix a b wb ca
    assume a: "a \<in> visited ?st'" "a \<notin> Y" "(b, wb) \<in> set (get_neighbors g a)"
      "distances ?st' a = Some (Fin ca)"
    with v have av: "a \<noteq> v" by auto
    with a(4) have da: "distances st a = Some (Fin ca)" by simp
    from a(1) have "a \<in> visited st" by simp
    with opt a(2,3) da obtain c where c: "distances st b = Some (Fin c)" "c \<le> ca + wb"
      unfolding dijkstra_opt_def d_relaxed_def by blast
    show "\<exists>c. distances ?st' b = Some (Fin c) \<and> c \<le> ca + wb"
    proof (cases "b = v")
      case True
      with c dv lt have "d + w \<le> c" by (auto simp: less_cost_def)
      with True c(2) show ?thesis by simp
    next
      case False
      with c show ?thesis by simp
    qed
  qed
  moreover from opt v have "d_optimal g s ?st'"
    unfolding dijkstra_opt_def d_optimal_def by auto
  moreover have "distances ?st' s = Some (Fin 0)"
  proof (cases "v = s")
    case True
    from nonneg_walk [OF nn wv] es(2) have "0 \<le> d + w" by simp
    moreover from opt have "distances st s = Some (Fin 0)" by (simp add: dijkstra_opt_def)
    ultimately show ?thesis using True dv lt by (auto simp: less_cost_def)
  next
    case False
    with opt show ?thesis by (simp add: dijkstra_opt_def)
  qed
  ultimately show ?thesis by (simp add: dijkstra_opt_def)
qed


lemma dijkstra_relax_opt:
  assumes r: "dijkstra_relax u d ns st = Inr st'"
    and inv: "dijkstra_inv g s X st" and opt: "dijkstra_opt g s Y st"
    and nn: "nonneg_weights g" and u: "u \<in> visited st"
    and ns: "set ns \<subseteq> set (get_neighbors g u)"
    and wu: "\<exists>es. walk g s es u \<and> walk_weight es = d"
  shows "dijkstra_inv g s X st' \<and> dijkstra_opt g s Y st' \<and> visited st' = visited st \<and>
         (\<forall>a. a \<in> visited st \<longrightarrow>
            distances st' a = distances st a \<and> previous st' a = previous st a)"
proof (rule dijkstra_relax_rule [OF r,
      where I = "\<lambda>st0. dijkstra_inv g s X st0 \<and> dijkstra_opt g s Y st0 \<and>
                   visited st0 = visited st \<and>
                   (\<forall>a. a \<in> visited st \<longrightarrow>
                      distances st0 a = distances st a \<and> previous st0 a = previous st a)"])
  from inv opt show "dijkstra_inv g s X st \<and> dijkstra_opt g s Y st \<and> visited st = visited st \<and>
      (\<forall>a. a \<in> visited st \<longrightarrow> distances st a = distances st a \<and> previous st a = previous st a)"
    by simp
next
  fix st0 :: dijkstra_state and v w dv
  assume I: "dijkstra_inv g s X st0 \<and> dijkstra_opt g s Y st0 \<and> visited st0 = visited st \<and>
      (\<forall>a. a \<in> visited st \<longrightarrow> distances st0 a = distances st a \<and> previous st0 a = previous st a)"
    and vw: "(v, w) \<in> set ns" and dv: "distances st0 v = Some dv" and lt: "Fin (d + w) < dv"
  from I have inv0: "dijkstra_inv g s X st0" and opt0: "dijkstra_opt g s Y st0"
    and vis: "visited st0 = visited st" by simp_all
  from vw ns have e: "(v, w) \<in> set (get_neighbors g u)" by blast
  from u vis have u0: "u \<in> visited st0" by simp
  note v = dijkstra_improve_unsettled [OF inv0 opt0 e dv lt wu]
  from dijkstra_inv_improve [OF inv0 u0 e dv lt wu]
    dijkstra_opt_improve [OF inv0 opt0 nn u0 e dv lt wu] I v vis
  show "dijkstra_inv g s X (dijkstra_improve u (d + w) v st0) \<and>
        dijkstra_opt g s Y (dijkstra_improve u (d + w) v st0) \<and>
        visited (dijkstra_improve u (d + w) v st0) = visited st \<and>
        (\<forall>a. a \<in> visited st \<longrightarrow>
           distances (dijkstra_improve u (d + w) v st0) a = distances st a \<and>
           previous (dijkstra_improve u (d + w) v st0) a = previous st a)"
    by auto
qed

lemma dijkstra_relax_decreases:
  assumes r: "dijkstra_relax u d ns st = Inr st'" and c: "distances st a = Some c"
  shows "\<exists>c'. distances st' a = Some c' \<and> c' \<le> c"
proof (rule dijkstra_relax_rule [OF r, where I = "\<lambda>st. \<exists>c'. distances st a = Some c' \<and> c' \<le> c"])
  from c show "\<exists>c'. distances st a = Some c' \<and> c' \<le> c" by simp
next
  fix st0 :: dijkstra_state and v w dv
  assume a: "\<exists>c'. distances st0 a = Some c' \<and> c' \<le> c"
    "distances st0 v = Some dv" "Fin (d + w) < dv"
  then show "\<exists>c'. distances (dijkstra_improve u (d + w) v st0) a = Some c' \<and> c' \<le> c"
    by (cases "a = v") auto
qed

lemma d_relaxed_drop:
  assumes "d_relaxed g (insert u X) st"
    and "\<And>v w cu. (v, w) \<in> set (get_neighbors g u) \<Longrightarrow> distances st u = Some (Fin cu) \<Longrightarrow>
           \<exists>c. distances st v = Some (Fin c) \<and> c \<le> cu + w"
  shows "d_relaxed g X st"
  using assms unfolding d_relaxed_def by blast

definition dijkstra_head :: "Graph \<Rightarrow> string \<Rightarrow> string \<Rightarrow> dijkstra_state \<Rightarrow> bool" where
  "dijkstra_head g s t st \<longleftrightarrow>
     dijkstra_inv g s {t} st \<and> dijkstra_opt g s {t} st \<and> t \<notin> visited st"

definition d_later :: "dijkstra_state \<Rightarrow> dijkstra_state \<Rightarrow> bool" where
  "d_later st st' \<longleftrightarrow>
     visited st \<subseteq> visited st' \<and>
     (\<forall>a c. distances st a = Some c \<longrightarrow> (\<exists>c'. distances st' a = Some c' \<and> c' \<le> c)) \<and>
     (\<forall>a. a \<in> visited st \<longrightarrow>
        distances st' a = distances st a \<and> previous st' a = previous st a)"

lemma dijkstra_body_head:
  assumes head: "dijkstra_head g s t st" and nn: "nonneg_weights g" and ne: "pq st \<noteq> []"
  shows "(dijkstra_body t st = Continue st' \<longrightarrow> dijkstra_head g s t st' \<and> d_later st st') \<and>
         (dijkstra_body t st = Break st' \<longrightarrow>
            dijkstra_inv g s {t} st' \<and> dijkstra_opt g s {t} st' \<and> t \<in> visited st' \<and>
            d_later st st')"
proof -
  from head have inv: "dijkstra_inv g s {t} st" and opt: "dijkstra_opt g s {t} st"
    and t: "t \<notin> visited st" by (simp_all add: dijkstra_head_def)
  obtain d u h where pop: "heappop (pq st) = ((d, u), h)"
    by (metis prod.exhaust)
  note hf = heappop_facts [OF ne pop]
  note body = dijkstra_body_unfold [OF pop, of t]
  show ?thesis
  proof (cases "u \<in> visited st")
    case True
    with body t dijkstra_pop_inv [OF inv ne pop True] dijkstra_opt_pop [OF opt, of h]
    show ?thesis by (auto simp: dijkstra_head_def d_later_def)
  next
    case False
    let ?st2 = "st\<lparr>pq := h, visited := insert u (visited st)\<rparr>"
    note inv2 = dijkstra_visit_inv [OF inv ne pop False]
    from t have X: "{t} \<inter> visited st = {}" by simp
    note opt2 = dijkstra_opt_visit [OF inv opt X nn ne pop False]
    have later2: "d_later st ?st2" by (auto simp: d_later_def)
    show ?thesis
    proof (cases "u = t")
      case True
      with body False inv2 opt2 later2 show ?thesis by auto
    next
      case ut: False
      from dijkstra_pop_exact [OF inv ne pop False]
      have du: "distances st u = Some (Fin d)" .
      from inv have gr: "graph st = g" by (simp add: dijkstra_inv_def d_dom_def)
      show ?thesis
      proof (cases "dijkstra_relax u d (get_neighbors g u) ?st2")
        case (Inl e)
        with body False ut du gr show ?thesis by simp
      next
        case (Inr st3)
        from inv hf(1) have wu: "\<exists>es. walk g s es u \<and> walk_weight es = d"
          unfolding dijkstra_inv_def d_queue_def by blast
        have r3: "dijkstra_inv g s {u, t} st3 \<and> dijkstra_opt g s {u, t} st3 \<and>
            visited st3 = visited ?st2 \<and>
            (\<forall>a. a \<in> visited ?st2 \<longrightarrow>
               distances st3 a = distances ?st2 a \<and> previous st3 a = previous ?st2 a)"
          by (rule dijkstra_relax_opt [OF Inr inv2 opt2 nn _ _ wu]) simp_all
        then have du3: "distances st3 u = Some (Fin d)" using du by simp
        have rdone: "\<exists>c. distances st3 v = Some (Fin c) \<and> c \<le> d + w"
          if "(v, w) \<in> set (get_neighbors g u)" for v w
          using dijkstra_relax_done [OF Inr that] .
        then have "finite_at (distances st3) v" if "(v, w) \<in> set (get_neighbors g u)" for v w
          using that by (auto simp: finite_at_iff)
        with r3 have inv3: "dijkstra_inv g s {t} st3"
          unfolding dijkstra_inv_def by (blast intro: d_closed_drop)
        have "d_relaxed g {t} st3"
        proof (rule d_relaxed_drop [of g u "{t}" st3])
          from r3 show "d_relaxed g (insert u {t}) st3" by (simp add: dijkstra_opt_def)
        next
          fix v w cu
          assume e: "(v, w) \<in> set (get_neighbors g u)" and "distances st3 u = Some (Fin cu)"
          with du3 have "cu = d" by simp
          with rdone [OF e] show "\<exists>c. distances st3 v = Some (Fin c) \<and> c \<le> cu + w" by simp
        qed
        with r3 have opt3: "dijkstra_opt g s {t} st3" by (simp add: dijkstra_opt_def)
        have later3: "d_later st st3"
          unfolding d_later_def
        proof (intro conjI allI impI)
          from r3 show "visited st \<subseteq> visited st3" by auto
        next
          fix a c assume "distances st a = Some c"
          then have "distances ?st2 a = Some c" by simp
          from dijkstra_relax_decreases [OF Inr this]
          show "\<exists>c'. distances st3 a = Some c' \<and> c' \<le> c" .
        next
          fix a assume "a \<in> visited st"
          with r3 show "distances st3 a = distances st a" "previous st3 a = previous st a"
            by simp_all
        qed
        from r3 t ut have "t \<notin> visited st3" by simp
        with body False ut du gr Inr inv3 opt3 later3 show ?thesis
          by (auto simp: dijkstra_head_def)
      qed
    qed
  qed
qed

lemma dijkstra_init_head:
  assumes "map_of (nodes g) s \<noteq> None"
  shows "dijkstra_head g s t (dijkstra_init g s)"
proof -
  have F: "finite_at (distances (dijkstra_init g s)) v \<longleftrightarrow> v = s" for v
    by (auto simp: finite_at_iff dijkstra_init_def map_of_const_map)
  have Ps: "previous (dijkstra_init g s) s = Some None"
    using assms by (auto simp: dijkstra_init_def map_of_const_map)
  have "d_chain (dijkstra_init g s)"
    unfolding d_chain_def F using Ps by (auto simp: chain_Cons intro: exI [of _ "[]"])
  moreover have "d_relaxed g {t} (dijkstra_init g s)" "d_optimal g s (dijkstra_init g s)"
    by (simp_all add: d_relaxed_def d_optimal_def dijkstra_init_def)
  moreover have "distances (dijkstra_init g s) s = Some (Fin 0)"
    by (simp add: dijkstra_init_def)
  ultimately have "dijkstra_opt g s {t} (dijkstra_init g s)"
    by (simp add: dijkstra_opt_def)
  with dijkstra_init_inv [OF assms, of "{t}"] show ?thesis
    by (simp add: dijkstra_head_def dijkstra_init_def)
qed

lemma dijkstra_loop_head:
  assumes "dijkstra_head g s t st" and nn: "nonneg_weights g"
    and "dijkstra_loop t st = Inr st'"
  shows "dijkstra_inv g s {t} st' \<and> dijkstra_opt g s {t} st' \<and>
         (pq st' = [] \<and> t \<notin> visited st' \<or> t \<in> visited st')"
proof -
  let ?R = "\<lambda>r. case r of Inl e \<Rightarrow> True
        | Inr st' \<Rightarrow> dijkstra_inv g s {t} st' \<and> dijkstra_opt g s {t} st' \<and>
            (pq st' = [] \<and> t \<notin> visited st' \<or> t \<in> visited st')"
  have "?R (dijkstra_loop t st)"
  proof (rule dijkstra_loop_rule [where I = "dijkstra_head g s t"])
    show "dijkstra_head g s t st" by (rule assms(1))
  next
    fix st0 st1 :: dijkstra_state
    assume "dijkstra_head g s t st0" "pq st0 \<noteq> []" "dijkstra_body t st0 = Continue st1"
    with dijkstra_body_head [OF _ nn, of s t st0 st1] show "dijkstra_head g s t st1" by simp
  next
    fix st0 st1 :: dijkstra_state
    assume "dijkstra_head g s t st0" "pq st0 \<noteq> []" "dijkstra_body t st0 = Break st1"
    with dijkstra_body_head [OF _ nn, of s t st0 st1] show "?R (Inr st1)" by simp
  next
    fix st0 :: dijkstra_state and e :: error
    show "?R (Inl e)" by simp
  next
    fix st0 :: dijkstra_state
    assume "dijkstra_head g s t st0" "pq st0 = []"
    then show "?R (Inr st0)" by (simp add: dijkstra_head_def)
  qed
  with assms(3) show ?thesis by simp
qed

section \<open>Costs only decrease, settled nodes stay as they are\<close>

definition dijkstra_iter :: "string \<Rightarrow> dijkstra_state \<Rightarrow> dijkstra_state \<Rightarrow> bool" where
  "dijkstra_iter t st st' \<longleftrightarrow> pq st \<noteq> [] \<and> dijkstra_body t st = Continue st'"

definition astar_iter :: "string \<Rightarrow> astar_state \<Rightarrow> astar_state \<Rightarrow> bool" where
  "astar_iter t st st' \<longleftrightarrow> pq st \<noteq> [] \<and> astar_body t st = Continue st'"

text \<open>
  \<open>dijkstra_then t st st'\<close>: the loop, at its head in state \<open>st\<close>, is later in state
  \<open>st'\<close>, after any number of iterations that go on and possibly the one that breaks.
\<close>

definition dijkstra_then :: "string \<Rightarrow> dijkstra_state \<Rightarrow> dijkstra_state \<Rightarrow> bool" where
  "dijkstra_then t st st' \<longleftrightarrow>
     (\<exists>st1. rtranclp (dijkstra_iter t) st st1 \<and>
        (st' = st1 \<or> pq st1 \<noteq> [] \<and> dijkstra_body t st1 = Break st'))"

definition astar_then :: "string \<Rightarrow> astar_state \<Rightarrow> astar_state \<Rightarrow> bool" where
  "astar_then t st st' \<longleftrightarrow>
     (\<exists>st1. rtranclp (astar_iter t) st st1 \<and>
        (st' = st1 \<or> pq st1 \<noteq> [] \<and> astar_body t st1 = Break st'))"

definition a_later :: "astar_state \<Rightarrow> astar_state \<Rightarrow> bool" where
  "a_later st st' \<longleftrightarrow>
     visited st \<subseteq> visited st' \<and>
     (\<forall>a c. g_score st a = Some c \<longrightarrow> (\<exists>c'. g_score st' a = Some c' \<and> c' \<le> c)) \<and>
     (\<forall>a. a \<in> visited st \<longrightarrow>
        g_score st' a = g_score st a \<and> previous st' a = previous st a)"

lemma d_later_refl: "d_later st st"
  by (simp add: d_later_def)

lemma d_later_trans:
  assumes "d_later st st1" and "d_later st1 st2"
  shows "d_later st st2"
  unfolding d_later_def
proof (intro conjI allI impI)
  from assms show "visited st \<subseteq> visited st2" by (auto simp: d_later_def)
next
  fix a c assume "distances st a = Some c"
  with assms(1) obtain c1 where c1: "distances st1 a = Some c1" "c1 \<le> c"
    unfolding d_later_def by blast
  with assms(2) obtain c2 where "distances st2 a = Some c2" "c2 \<le> c1"
    unfolding d_later_def by blast
  with c1(2) show "\<exists>c'. distances st2 a = Some c' \<and> c' \<le> c" by auto
next
  fix a assume a: "a \<in> visited st"
  with assms(1) have "a \<in> visited st1" by (auto simp: d_later_def)
  with assms a show "distances st2 a = distances st a" "previous st2 a = previous st a"
    by (simp_all add: d_later_def)
qed

lemma a_later_refl: "a_later st st"
  by (simp add: a_later_def)

lemma a_later_trans:
  assumes "a_later st st1" and "a_later st1 st2"
  shows "a_later st st2"
  unfolding a_later_def
proof (intro conjI allI impI)
  from assms show "visited st \<subseteq> visited st2" by (auto simp: a_later_def)
next
  fix a c assume "g_score st a = Some c"
  with assms(1) obtain c1 where c1: "g_score st1 a = Some c1" "c1 \<le> c"
    unfolding a_later_def by blast
  with assms(2) obtain c2 where "g_score st2 a = Some c2" "c2 \<le> c1"
    unfolding a_later_def by blast
  with c1(2) show "\<exists>c'. g_score st2 a = Some c' \<and> c' \<le> c" by auto
next
  fix a assume a: "a \<in> visited st"
  with assms(1) have "a \<in> visited st1" by (auto simp: a_later_def)
  with assms a show "g_score st2 a = g_score st a" "previous st2 a = previous st a"
    by (simp_all add: a_later_def)
qed

lemma astar_relax_decreases:
  assumes r: "astar_relax t u ns st = Inr st'" and c: "g_score st a = Some c"
  shows "\<exists>c'. g_score st' a = Some c' \<and> c' \<le> c"
proof (rule astar_relax_rule [OF r, where I = "\<lambda>st. \<exists>c'. g_score st a = Some c' \<and> c' \<le> c"])
  from c show "\<exists>c'. g_score st a = Some c' \<and> c' \<le> c" by simp
next
  fix st0 :: astar_state and v w gu gv
  assume a: "\<exists>c'. g_score st0 a = Some c' \<and> c' \<le> c"
    "g_score st0 v = Some gv" "cost_add gu w < gv"
  then show "\<exists>c'. g_score (astar_improve t u (cost_add gu w) v st0) a = Some c' \<and> c' \<le> c"
    by (cases "a = v") auto
qed

lemma astar_body_later:
  assumes "astar_body t st = Continue st' \<or> astar_body t st = Break st'"
  shows "a_later st st'"
proof -
  obtain f u h where pop: "heappop (pq st) = ((f, u), h)"
    by (metis prod.exhaust)
  let ?st2 = "st\<lparr>pq := h, visited := insert u (visited st)\<rparr>"
  from assms have "st' = st\<lparr>pq := h\<rparr> \<or> st' = ?st2 \<or>
      astar_relax t u (get_neighbors (graph st) u) ?st2 = Inr st'"
    unfolding astar_body_unfold [OF pop]
    by (auto split: if_splits sum.splits)
  then consider "st' = st\<lparr>pq := h\<rparr>" | "st' = ?st2"
    | "astar_relax t u (get_neighbors (graph st) u) ?st2 = Inr st'" by blast
  then show ?thesis
  proof cases
    case 1
    then show ?thesis by (simp add: a_later_def)
  next
    case 2
    then show ?thesis by (auto simp: a_later_def)
  next
    case 3
    show ?thesis
      unfolding a_later_def
    proof (intro conjI allI impI)
      from astar_relax_frame [OF 3] show "visited st \<subseteq> visited st'" by auto
    next
      fix a c assume "g_score st a = Some c"
      then have "g_score ?st2 a = Some c" by simp
      from astar_relax_decreases [OF 3 this]
      show "\<exists>c'. g_score st' a = Some c' \<and> c' \<le> c" .
    next
      fix a assume "a \<in> visited st"
      then have "a \<in> visited ?st2" by simp
      from astar_relax_settled [OF 3 this]
      show "g_score st' a = g_score st a" "previous st' a = previous st a" by simp_all
    qed
  qed
qed

lemma astar_then_later:
  assumes "astar_then t st st'"
  shows "a_later st st'"
proof -
  from assms obtain st1 where run: "rtranclp (astar_iter t) st st1"
    and fin: "st' = st1 \<or> pq st1 \<noteq> [] \<and> astar_body t st1 = Break st'"
    unfolding astar_then_def by blast
  from run have l1: "a_later st st1"
  proof (induction rule: rtranclp_induct)
    case base
    show ?case by (rule a_later_refl)
  next
    case (step y z)
    from step.hyps(2) have "a_later y z"
      by (auto simp: astar_iter_def intro: astar_body_later)
    with step.IH show ?case by (rule a_later_trans)
  qed
  from fin show ?thesis
  proof
    assume "st' = st1"
    with l1 show ?thesis by simp
  next
    assume "pq st1 \<noteq> [] \<and> astar_body t st1 = Break st'"
    then have "a_later st1 st'" by (auto intro: astar_body_later)
    with l1 show ?thesis by (rule a_later_trans)
  qed
qed

lemma dijkstra_reach_head:
  assumes "dijkstra_head g s t st" and nn: "nonneg_weights g"
    and "rtranclp (dijkstra_iter t) st st1"
  shows "dijkstra_head g s t st1 \<and> d_later st st1"
  using assms(3)
proof (induction rule: rtranclp_induct)
  case base
  from assms(1) show ?case by (simp add: d_later_refl)
next
  case (step y z)
  from step.IH have hy: "dijkstra_head g s t y" and ly: "d_later st y" by simp_all
  from step.hyps(2) have "pq y \<noteq> []" "dijkstra_body t y = Continue z"
    by (simp_all add: dijkstra_iter_def)
  with dijkstra_body_head [OF hy nn, of z] have "dijkstra_head g s t z" "d_later y z"
    by simp_all
  with ly show ?case by (auto intro: d_later_trans)
qed

lemma dijkstra_then_later:
  assumes head: "dijkstra_head g s t st" and nn: "nonneg_weights g"
    and "dijkstra_then t st st'"
  shows "d_later st st'"
proof -
  from assms(3) obtain st1 where run: "rtranclp (dijkstra_iter t) st st1"
    and fin: "st' = st1 \<or> pq st1 \<noteq> [] \<and> dijkstra_body t st1 = Break st'"
    unfolding dijkstra_then_def by blast
  from dijkstra_reach_head [OF head nn run]
  have h1: "dijkstra_head g s t st1" and l1: "d_later st st1" by simp_all
  from fin show ?thesis
  proof
    assume "st' = st1"
    with l1 show ?thesis by simp
  next
    assume "pq st1 \<noteq> [] \<and> dijkstra_body t st1 = Break st'"
    with dijkstra_body_head [OF h1 nn, of st'] have "d_later st1 st'" by simp
    with l1 show ?thesis by (rule d_later_trans)
  qed
qed

text \<open>
  Claim C5. Let all edge weights be non-negative. In every state \<open>st\<close> that the loop of
  either search reaches from its initial state, and every state \<open>st'\<close> that the loop is in
  later in the same call: no node has left the visited set, the recorded cost of every
  node is at most what it was (a relaxation only lowers it), and the cost and the
  predecessor of every node that was visited in \<open>st\<close> are what they were.
\<close>

theorem settled_is_final:
  assumes "nonneg_weights g" and "map_of (nodes g) s \<noteq> None"
  shows "(rtranclp (dijkstra_iter t) (dijkstra_init g s) dst \<and> dijkstra_then t dst dst' \<longrightarrow>
            visited dst \<subseteq> visited dst' \<and>
            (\<forall>a c. distances dst a = Some c \<longrightarrow> (\<exists>c'. distances dst' a = Some c' \<and> c' \<le> c)) \<and>
            (\<forall>a. a \<in> visited dst \<longrightarrow>
               distances dst' a = distances dst a \<and> previous dst' a = previous dst a)) \<and>
         (rtranclp (astar_iter t) (astar_init g s t) ast \<and> astar_then t ast ast' \<longrightarrow>
            visited ast \<subseteq> visited ast' \<and>
            (\<forall>a c. g_score ast a = Some c \<longrightarrow> (\<exists>c'. g_score ast' a = Some c' \<and> c' \<le> c)) \<and>
            (\<forall>a. a \<in> visited ast \<longrightarrow>
               g_score ast' a = g_score ast a \<and> previous ast' a = previous ast a))"
proof (intro conjI impI)
  assume a: "rtranclp (dijkstra_iter t) (dijkstra_init g s) dst \<and> dijkstra_then t dst dst'"
  from dijkstra_reach_head [OF dijkstra_init_head [OF assms(2)] assms(1), of t dst] a
  have "dijkstra_head g s t dst" by simp
  from dijkstra_then_later [OF this assms(1), of dst'] a have l: "d_later dst dst'" by simp
  from l show "visited dst \<subseteq> visited dst'" by (simp add: d_later_def)
  from l show "\<forall>a c. distances dst a = Some c \<longrightarrow> (\<exists>c'. distances dst' a = Some c' \<and> c' \<le> c)"
    by (simp add: d_later_def)
  from l show "\<forall>a. a \<in> visited dst \<longrightarrow>
               distances dst' a = distances dst a \<and> previous dst' a = previous dst a"
    by (simp add: d_later_def)
next
  assume a: "rtranclp (astar_iter t) (astar_init g s t) ast \<and> astar_then t ast ast'"
  then have l: "a_later ast ast'" by (auto intro: astar_then_later)
  from l show "visited ast \<subseteq> visited ast'" by (simp add: a_later_def)
  from l show "\<forall>a c. g_score ast a = Some c \<longrightarrow> (\<exists>c'. g_score ast' a = Some c' \<and> c' \<le> c)"
    by (simp add: a_later_def)
  from l show "\<forall>a. a \<in> visited ast \<longrightarrow>
               g_score ast' a = g_score ast a \<and> previous ast' a = previous ast a"
    by (simp add: a_later_def)
qed


lemma nonneg_diamond: "nonneg_weights diamond"
  by (simp add: nonneg_weights_def diamond_def mk_edge_def)

theorem settled_is_final_witness:
  "nonneg_weights diamond \<and> map_of (nodes diamond) ''A'' \<noteq> None \<and>
   rtranclp (dijkstra_iter ''D'') (dijkstra_init diamond ''A'')
     (dijkstra_improve ''A'' 2 ''C'' (dijkstra_improve ''A'' 1 ''B''
        ((dijkstra_init diamond ''A'')\<lparr>pq := [], visited := {''A''}\<rparr>))) \<and>
   dijkstra_then ''D''
     (dijkstra_improve ''A'' 2 ''C'' (dijkstra_improve ''A'' 1 ''B''
        ((dijkstra_init diamond ''A'')\<lparr>pq := [], visited := {''A''}\<rparr>)))
     (dijkstra_improve ''B'' 4 ''D''
        ((dijkstra_improve ''A'' 2 ''C'' (dijkstra_improve ''A'' 1 ''B''
           ((dijkstra_init diamond ''A'')\<lparr>pq := [], visited := {''A''}\<rparr>)))
         \<lparr>pq := [(2, ''C'')], visited := {''B'', ''A''}\<rparr>)) \<and>
   ''A'' \<in> visited (dijkstra_improve ''A'' 2 ''C'' (dijkstra_improve ''A'' 1 ''B''
        ((dijkstra_init diamond ''A'')\<lparr>pq := [], visited := {''A''}\<rparr>))) \<and>
   distances (dijkstra_improve ''B'' 4 ''D''
        ((dijkstra_improve ''A'' 2 ''C'' (dijkstra_improve ''A'' 1 ''B''
           ((dijkstra_init diamond ''A'')\<lparr>pq := [], visited := {''A''}\<rparr>)))
         \<lparr>pq := [(2, ''C'')], visited := {''B'', ''A''}\<rparr>)) ''A''
     = distances (dijkstra_improve ''A'' 2 ''C'' (dijkstra_improve ''A'' 1 ''B''
        ((dijkstra_init diamond ''A'')\<lparr>pq := [], visited := {''A''}\<rparr>))) ''A'' \<and>
   previous (dijkstra_improve ''B'' 4 ''D''
        ((dijkstra_improve ''A'' 2 ''C'' (dijkstra_improve ''A'' 1 ''B''
           ((dijkstra_init diamond ''A'')\<lparr>pq := [], visited := {''A''}\<rparr>)))
         \<lparr>pq := [(2, ''C'')], visited := {''B'', ''A''}\<rparr>)) ''A''
     = previous (dijkstra_improve ''A'' 2 ''C'' (dijkstra_improve ''A'' 1 ''B''
        ((dijkstra_init diamond ''A'')\<lparr>pq := [], visited := {''A''}\<rparr>))) ''A'' \<and>
   rtranclp (astar_iter ''D'') (astar_init diamond ''A'' ''D'')
     (astar_improve ''D'' ''A'' (Fin 2) ''C'' (astar_improve ''D'' ''A'' (Fin 1) ''B''
        ((astar_init diamond ''A'' ''D'')\<lparr>pq := [], visited := {''A''}\<rparr>))) \<and>
   astar_then ''D''
     (astar_improve ''D'' ''A'' (Fin 2) ''C'' (astar_improve ''D'' ''A'' (Fin 1) ''B''
        ((astar_init diamond ''A'' ''D'')\<lparr>pq := [], visited := {''A''}\<rparr>)))
     (astar_improve ''D'' ''B'' (Fin 4) ''D''
        ((astar_improve ''D'' ''A'' (Fin 2) ''C'' (astar_improve ''D'' ''A'' (Fin 1) ''B''
           ((astar_init diamond ''A'' ''D'')\<lparr>pq := [], visited := {''A''}\<rparr>)))
         \<lparr>pq := [(Fin (2 + sqrt 2), ''C'')], visited := {''B'', ''A''}\<rparr>)) \<and>
   ''A'' \<in> visited (astar_improve ''D'' ''A'' (Fin 2) ''C'' (astar_improve ''D'' ''A'' (Fin 1) ''B''
        ((astar_init diamond ''A'' ''D'')\<lparr>pq := [], visited := {''A''}\<rparr>))) \<and>
   g_score (astar_improve ''D'' ''B'' (Fin 4) ''D''
        ((astar_improve ''D'' ''A'' (Fin 2) ''C'' (astar_improve ''D'' ''A'' (Fin 1) ''B''
           ((astar_init diamond ''A'' ''D'')\<lparr>pq := [], visited := {''A''}\<rparr>)))
         \<lparr>pq := [(Fin (2 + sqrt 2), ''C'')], visited := {''B'', ''A''}\<rparr>)) ''A''
     = g_score (astar_improve ''D'' ''A'' (Fin 2) ''C'' (astar_improve ''D'' ''A'' (Fin 1) ''B''
        ((astar_init diamond ''A'' ''D'')\<lparr>pq := [], visited := {''A''}\<rparr>))) ''A'' \<and>
   previous (astar_improve ''D'' ''B'' (Fin 4) ''D''
        ((astar_improve ''D'' ''A'' (Fin 2) ''C'' (astar_improve ''D'' ''A'' (Fin 1) ''B''
           ((astar_init diamond ''A'' ''D'')\<lparr>pq := [], visited := {''A''}\<rparr>)))
         \<lparr>pq := [(Fin (2 + sqrt 2), ''C'')], visited := {''B'', ''A''}\<rparr>)) ''A''
     = previous (astar_improve ''D'' ''A'' (Fin 2) ''C'' (astar_improve ''D'' ''A'' (Fin 1) ''B''
        ((astar_init diamond ''A'' ''D'')\<lparr>pq := [], visited := {''A''}\<rparr>))) ''A''"
proof -
  let ?d0 = "dijkstra_init diamond ''A''"
  let ?d1 = "dijkstra_improve ''A'' 2 ''C'' (dijkstra_improve ''A'' 1 ''B''
        (?d0\<lparr>pq := [], visited := {''A''}\<rparr>))"
  let ?d2 = "dijkstra_improve ''B'' 4 ''D'' (?d1\<lparr>pq := [(2, ''C'')], visited := {''B'', ''A''}\<rparr>)"
  let ?a0 = "astar_init diamond ''A'' ''D''"
  let ?a1 = "astar_improve ''D'' ''A'' (Fin 2) ''C'' (astar_improve ''D'' ''A'' (Fin 1) ''B''
        (?a0\<lparr>pq := [], visited := {''A''}\<rparr>))"
  let ?a2 = "astar_improve ''D'' ''B'' (Fin 4) ''D''
        (?a1\<lparr>pq := [(Fin (2 + sqrt 2), ''C'')], visited := {''B'', ''A''}\<rparr>)"
  have k: "map_of (nodes diamond) ''A'' \<noteq> None" by (simp add: diamond_nodes)
  have "dijkstra_body ''D'' ?d0 = Continue ?d1"
    by (simp add: dijkstra_body_def dijkstra_init_def heappop_def diamond_nbrs diamond_nodes
        dijkstra_improve_def Let_def less_cost_def)
  then have "dijkstra_iter ''D'' ?d0 ?d1"
    by (simp add: dijkstra_iter_def dijkstra_init_def)
  then have d01: "rtranclp (dijkstra_iter ''D'') ?d0 ?d1" by (rule r_into_rtranclp)
  have "dijkstra_body ''D'' ?d1 = Continue ?d2"
    by (simp add: dijkstra_body_def dijkstra_init_def heappop_def heappush_def diamond_nbrs
        diamond_nodes dijkstra_improve_def Let_def less_cost_def less_eq_cost_def min_def)
  then have "dijkstra_iter ''D'' ?d1 ?d2"
    by (simp add: dijkstra_iter_def dijkstra_improve_def heappush_def)
  then have "rtranclp (dijkstra_iter ''D'') ?d1 ?d2" by (rule r_into_rtranclp)
  then have d12: "dijkstra_then ''D'' ?d1 ?d2"
    unfolding dijkstra_then_def by (intro exI [of _ ?d2]) simp
  have dv: "''A'' \<in> visited ?d1" by (simp add: dijkstra_improve_def)
  have "astar_body ''D'' ?a0 = Continue ?a1"
    by (simp add: astar_body_def astar_init_def heappop_def diamond_nbrs diamond_nodes
        astar_improve_def Let_def less_cost_def)
  then have "astar_iter ''D'' ?a0 ?a1"
    by (simp add: astar_iter_def astar_init_def)
  then have a01: "rtranclp (astar_iter ''D'') ?a0 ?a1" by (rule r_into_rtranclp)
  have "astar_body ''D'' ?a1 = Continue ?a2"
    by (simp add: astar_body_def astar_init_def heappop_def heappush_def diamond_nbrs
        diamond_nodes diamond_heuristic astar_improve_def Let_def less_cost_def less_eq_cost_def
        min_def sqrt2_bounds)
  then have "astar_iter ''D'' ?a1 ?a2"
    by (simp add: astar_iter_def astar_improve_def heappush_def)
  then have "rtranclp (astar_iter ''D'') ?a1 ?a2" by (rule r_into_rtranclp)
  then have a12: "astar_then ''D'' ?a1 ?a2"
    unfolding astar_then_def by (intro exI [of _ ?a2]) simp
  have av: "''A'' \<in> visited ?a1" by simp
  from settled_is_final [OF nonneg_diamond k, of "''D''" ?d1 ?d2 ?a1 ?a2] d01 d12 dv a01 a12 av
  have 1: "distances ?d2 ''A'' = distances ?d1 ''A''" "previous ?d2 ''A'' = previous ?d1 ''A''"
    "g_score ?a2 ''A'' = g_score ?a1 ''A''" "previous ?a2 ''A'' = previous ?a1 ''A''"
    by blast+
  from nonneg_diamond k d01 d12 dv a01 a12 av 1 show ?thesis by blast
qed

section \<open>What a call returns\<close>

lemma dijkstra_finite_iff_connected:
  assumes inv: "dijkstra_inv g s {t} st" and ex: "pq st = [] \<or> t \<in> visited st"
  shows "finite_at (distances st) t \<longleftrightarrow> connected g s t"
proof
  assume "finite_at (distances st) t"
  with inv show "connected g s t"
    unfolding dijkstra_inv_def d_dist_def finite_at_iff connected_def by blast
next
  assume "connected g s t"
  then obtain es where es: "walk g s es t" by (auto simp: connected_def)
  from ex show "finite_at (distances st) t"
  proof
    assume "t \<in> visited st"
    with inv show ?thesis by (simp add: dijkstra_inv_def d_closed_def)
  next
    assume empty: "pq st = []"
    have "finite_at (distances st) t" if "walk g a es t" "finite_at (distances st) a" for a
      using that
    proof (induction es arbitrary: a)
      case Nil
      then show ?case by simp
    next
      case (Cons e es)
      obtain v w where e: "e = (v, w)" by (cases e)
      show ?case
      proof (cases "a = t")
        case True
        with Cons.prems(2) show ?thesis by simp
      next
        case False
        from Cons.prems(2) inv empty have "a \<in> visited st"
          unfolding dijkstra_inv_def d_front_def finite_at_iff by fastforce
        with inv False Cons.prems(1) e have "finite_at (distances st) v"
          unfolding dijkstra_inv_def d_closed_def by auto
        with Cons.IH [of v] Cons.prems(1) e show ?thesis by simp
      qed
    qed
    with es inv show ?thesis by (simp add: dijkstra_inv_def)
  qed
qed

lemma astar_finite_iff_connected:
  assumes inv: "astar_inv g s t {t} st" and ex: "pq st = [] \<or> t \<in> visited st"
  shows "finite_at (g_score st) t \<longleftrightarrow> connected g s t"
proof
  assume "finite_at (g_score st) t"
  with inv show "connected g s t"
    unfolding astar_inv_def a_dist_def finite_at_iff connected_def by blast
next
  assume "connected g s t"
  then obtain es where es: "walk g s es t" by (auto simp: connected_def)
  from ex show "finite_at (g_score st) t"
  proof
    assume "t \<in> visited st"
    with inv show ?thesis by (simp add: astar_inv_def a_closed_def)
  next
    assume empty: "pq st = []"
    have "finite_at (g_score st) t" if "walk g a es t" "finite_at (g_score st) a" for a
      using that
    proof (induction es arbitrary: a)
      case Nil
      then show ?case by simp
    next
      case (Cons e es)
      obtain v w where e: "e = (v, w)" by (cases e)
      show ?case
      proof (cases "a = t")
        case True
        with Cons.prems(2) show ?thesis by simp
      next
        case False
        from Cons.prems(2) inv empty have "a \<in> visited st"
          unfolding astar_inv_def a_front_def finite_at_iff by fastforce
        with inv False Cons.prems(1) e have "finite_at (g_score st) v"
          unfolding astar_inv_def a_closed_def by auto
        with Cons.IH [of v] Cons.prems(1) e show ?thesis by simp
      qed
    qed
    with es inv show ?thesis by (simp add: astar_inv_def)
  qed
qed

lemma reconstruct_chain:
  assumes "chain prev (Some t) cs"
  shows "reconstruct prev t c = Some (Inr (Some (rev cs), c))"
  using walk_back_chain [OF assms, of "[]"] by (simp add: reconstruct_def)

lemma not_finite_at: "D v = Some c \<Longrightarrow> \<not> finite_at D v \<Longrightarrow> c = PInf"
  by (cases c) (auto simp: finite_at_def)

lemma dijkstra_unreachable:
  assumes wf: "graph_inv g" and nc: "\<not> connected g s t"
  shows "dijkstra g s t = Some (Inr (None, PInf))"
proof (cases "map_of (nodes g) s = None \<or> map_of (nodes g) t = None")
  case True
  then show ?thesis by (simp add: dijkstra_def)
next
  case False
  then have k: "map_of (nodes g) s \<noteq> None" "map_of (nodes g) t \<noteq> None" by simp_all
  note inv0 = dijkstra_init_inv [OF k(1), of "{t}"]
  from dijkstra_loop_no_error [OF inv0 wf] obtain st
    where st: "dijkstra_loop t (dijkstra_init g s) = Inr st" by blast
  from dijkstra_loop_inv [OF inv0 st]
  have inv: "dijkstra_inv g s {t} st" and ex: "pq st = [] \<or> t \<in> visited st" by simp_all
  from inv k(2) obtain c where c: "distances st t = Some c"
    by (auto simp: dijkstra_inv_def d_dom_def)
  from dijkstra_finite_iff_connected [OF inv ex] nc have "\<not> finite_at (distances st) t" by simp
  from not_finite_at [OF c this] False st c show ?thesis by (simp add: dijkstra_def)
qed

lemma astar_unreachable:
  assumes wf: "graph_inv g" and nc: "\<not> connected g s t"
  shows "astar g s t = Some (Inr (None, PInf))"
proof (cases "map_of (nodes g) s = None \<or> map_of (nodes g) t = None")
  case True
  then show ?thesis by (simp add: astar_def)
next
  case False
  then have k: "map_of (nodes g) s \<noteq> None" "map_of (nodes g) t \<noteq> None" by simp_all
  note inv0 = astar_init_inv [OF k(1), of t "{t}"]
  from astar_loop_no_error [OF inv0 wf] obtain st
    where st: "astar_loop t (astar_init g s t) = Inr st" by blast
  from astar_loop_inv [OF inv0 st]
  have inv: "astar_inv g s t {t} st" and ex: "pq st = [] \<or> t \<in> visited st" by simp_all
  from inv k(2) obtain c where c: "g_score st t = Some c"
    by (auto simp: astar_inv_def a_dom_def)
  from astar_finite_iff_connected [OF inv ex] nc have "\<not> finite_at (g_score st) t" by simp
  from not_finite_at [OF c this] False st c show ?thesis by (simp add: astar_def)
qed

text \<open>What a call of \<open>astar\<close> gives once its loop has ended, on any graph.\<close>

lemma astar_after_loop:
  assumes k: "map_of (nodes g) s \<noteq> None" "map_of (nodes g) t \<noteq> None"
    and st: "astar_loop t (astar_init g s t) = Inr st"
  shows "(connected g s t \<longrightarrow>
            (\<exists>cs d. g_score st t = Some (Fin d) \<and> chain (previous st) (Some t) cs \<and>
               astar g s t = Some (Inr (Some (rev cs), Fin d)))) \<and>
         (\<not> connected g s t \<longrightarrow> astar g s t = Some (Inr (None, PInf)))"
proof -
  note inv0 = astar_init_inv [OF k(1), of t "{t}"]
  from astar_loop_inv [OF inv0 st]
  have inv: "astar_inv g s t {t} st" and ex: "pq st = [] \<or> t \<in> visited st" by simp_all
  from inv k(2) obtain c where c: "g_score st t = Some c"
    by (auto simp: astar_inv_def a_dom_def)
  note iff = astar_finite_iff_connected [OF inv ex]
  show ?thesis
  proof (intro conjI impI)
    assume "connected g s t"
    with iff have f: "finite_at (g_score st) t" by simp
    with c obtain d where d: "c = Fin d" by (auto simp: finite_at_iff)
    from inv f obtain rest where "chain (previous st) (Some t) (t # rest)"
      unfolding astar_inv_def a_chain_def by blast
    from this reconstruct_chain [OF this, of c] k st c d
    show "\<exists>cs d. g_score st t = Some (Fin d) \<and> chain (previous st) (Some t) cs \<and>
               astar g s t = Some (Inr (Some (rev cs), Fin d))"
      by (intro exI [of _ "t # rest"] exI [of _ d]) (simp add: astar_def)
  next
    assume "\<not> connected g s t"
    with iff have "\<not> finite_at (g_score st) t" by simp
    from not_finite_at [OF c this] k st c show "astar g s t = Some (Inr (None, PInf))"
      by (simp add: astar_def)
  qed
qed

lemma dijkstra_after_loop:
  assumes k: "map_of (nodes g) s \<noteq> None" "map_of (nodes g) t \<noteq> None"
    and nn: "nonneg_weights g"
    and st: "dijkstra_loop t (dijkstra_init g s) = Inr st"
  shows "(connected g s t \<longrightarrow>
            (\<exists>cs d. distances st t = Some (Fin d) \<and> chain (previous st) (Some t) cs \<and>
               dijkstra g s t = Some (Inr (Some (rev cs), Fin d)))) \<and>
         (\<not> connected g s t \<longrightarrow> dijkstra g s t = Some (Inr (None, PInf)))"
proof -
  from dijkstra_loop_head [OF dijkstra_init_head [OF k(1)] nn st]
  have inv: "dijkstra_inv g s {t} st" and opt: "dijkstra_opt g s {t} st"
    and ex: "pq st = [] \<or> t \<in> visited st" by auto
  from inv k(2) obtain c where c: "distances st t = Some c"
    by (auto simp: dijkstra_inv_def d_dom_def)
  note iff = dijkstra_finite_iff_connected [OF inv ex]
  show ?thesis
  proof (intro conjI impI)
    assume "connected g s t"
    with iff have f: "finite_at (distances st) t" by simp
    with c obtain d where d: "c = Fin d" by (auto simp: finite_at_iff)
    from opt f obtain rest where "chain (previous st) (Some t) (t # rest)"
      unfolding dijkstra_opt_def d_chain_def by blast
    from this reconstruct_chain [OF this, of c] k st c d
    show "\<exists>cs d. distances st t = Some (Fin d) \<and> chain (previous st) (Some t) cs \<and>
               dijkstra g s t = Some (Inr (Some (rev cs), Fin d))"
      by (intro exI [of _ "t # rest"] exI [of _ d]) (simp add: dijkstra_def)
  next
    assume "\<not> connected g s t"
    with iff have "\<not> finite_at (distances st) t" by simp
    from not_finite_at [OF c this] k st c show "dijkstra g s t = Some (Inr (None, PInf))"
      by (simp add: dijkstra_def)
  qed
qed



section \<open>A graph with a negative weight\<close>


definition neg_graph :: Graph where
  "neg_graph =
     \<lparr>nodes = [(''A'', mk_node ''A'' 0 0 []), (''B'', mk_node ''B'' 0 0 []),
               (''C'', mk_node ''C'' 0 0 [])],
      edges = [(''A'', [mk_edge ''A'' ''B'' (- 1) []]),
               (''B'', [mk_edge ''B'' ''A'' (- 1) [], mk_edge ''B'' ''C'' 5 []]),
               (''C'', [mk_edge ''C'' ''B'' 5 []])]\<rparr>"


lemma neg_nbrs:
  "get_neighbors neg_graph ''A'' = [(''B'', - 1)]"
  "get_neighbors neg_graph ''B'' = [(''A'', - 1), (''C'', 5)]"
  "get_neighbors neg_graph ''C'' = [(''B'', 5)]"
  by (simp_all add: neg_graph_def get_neighbors_def mk_edge_def)

lemma neg_nodes:
  "map_of (nodes neg_graph) = [''A'' \<mapsto> mk_node ''A'' 0 0 [], ''B'' \<mapsto> mk_node ''B'' 0 0 [],
      ''C'' \<mapsto> mk_node ''C'' 0 0 []]"
  "map (\<lambda>(k, n). (k, c)) (nodes neg_graph) = [(''A'', c), (''B'', c), (''C'', c)]"
  by (auto simp add: neg_graph_def)

lemma neg_connected: "connected neg_graph ''A'' ''C''"
  unfolding connected_def
  by (rule exI [of _ "[(''B'', - 1), (''C'', 5)]"]) (simp add: neg_nbrs)

lemma walk_back_cycle:
  assumes ab: "prev a = Some (Some b)" and ba: "prev b = Some (Some a)"
  shows "walk_back prev (Some a) path = None"
proof (cases "walk_back prev (Some a) path")
  case None
  then show ?thesis .
next
  case (Some r)
  have "\<exists>p. r = Inr p"
  proof (rule walk_back_no_error [OF Some, where S = "{a, b}"])
    fix v assume "v \<in> {a, b}"
    with ab ba show "\<exists>nxt. prev v = Some nxt \<and> (\<forall>u. nxt = Some u \<longrightarrow> u \<in> {a, b})" by auto
  qed simp
  then obtain p where "r = Inr p" ..
  with Some walk_back_returns [of prev "Some a" path p] obtain cs
    where cs: "chain prev (Some a) cs" by blast
  from cs obtain cs1 where 1: "cs = a # cs1" "chain prev (Some b) cs1"
    using ab by (cases cs) (auto simp: chain_Cons)
  from 1(2) obtain cs2 where 2: "cs1 = b # cs2" "chain prev (Some a) cs2"
    using ba by (cases cs1) (auto simp: chain_Cons)
  from 2(2) obtain rest where 3: "cs2 = a # rest"
    by (cases cs2) (auto simp: chain_Cons)
  from 1(1) 2(1) 3 have "cs = a # b # a # rest" by simp
  with chain_distinct [OF cs] show ?thesis by simp
qed

lemma dijkstra_neg_loop:
  "\<exists>st. dijkstra_loop ''C'' (dijkstra_init neg_graph ''A'') = Inr st \<and>
     distances st ''C'' = Some (Fin 4) \<and>
     previous st ''C'' = Some (Some ''B'') \<and> previous st ''B'' = Some (Some ''A'') \<and>
     previous st ''A'' = Some (Some ''B'')"
  by (simp add: dijkstra_init_def dijkstra_body_def heappop_def heappush_def neg_nbrs
     neg_nodes Let_def less_cost_def min_def)

lemma dijkstra_neg_diverges: "dijkstra neg_graph ''A'' ''C'' = None"
proof -
  from dijkstra_neg_loop obtain st
    where st: "dijkstra_loop ''C'' (dijkstra_init neg_graph ''A'') = Inr st"
      and d: "distances st ''C'' = Some (Fin 4)"
      and p: "previous st ''C'' = Some (Some ''B'')" "previous st ''B'' = Some (Some ''A'')"
        "previous st ''A'' = Some (Some ''B'')"
    by blast
  from walk_back_cycle [OF p(2,3)] have "walk_back (previous st) (Some ''B'') [''C''] = None" .
  with p(1) have "walk_back (previous st) (Some ''C'') [] = None"
    by (subst walk_back.simps) simp
  then have "reconstruct (previous st) ''C'' (Fin 4) = None"
    by (simp add: reconstruct_def)
  with st d show ?thesis
    by (simp add: dijkstra_def neg_nodes)
qed

section \<open>How the loops run and end\<close>










section \<open>Termination of a call\<close>








section \<open>Path or sentinel\<close>

text \<open>
  The searches compute with floats, the model with reals. \<open>in_range g\<close> keeps the
  numbers of a graph so far inside the float range that no operation of a search on it
  overflows: every coordinate is at most \<open>10\<^sup>1\<^sup>5\<^sup>0\<close> in absolute value, so the squares in
  \<open>euclidean_distance\<close> stay below \<open>10\<^sup>3\<^sup>0\<^sup>1\<close>, and the absolute values of all edge
  weights sum to at most \<open>10\<^sup>3\<^sup>0\<^sup>0\<close>, which bounds every cost a search records.
\<close>

definition in_range :: "Graph \<Rightarrow> bool" where
  "in_range g \<longleftrightarrow>
     list_all (\<lambda>(k, n). \<bar>node_x n\<bar> \<le> 10 ^ 150 \<and> \<bar>node_y n\<bar> \<le> 10 ^ 150) (nodes g) \<and>
     sum_list (map (\<lambda>e. \<bar>weight e\<bar>) (concat (map snd (edges g)))) \<le> 10 ^ 300"

definition apart_ops :: "op list" where
  "apart_ops = [AddNode ''A'' 0 0 ''A'', AddNode ''B'' 1 0 ''B'']"

definition apart :: Graph where
  "apart = \<lparr>nodes = [(''A'', mk_node ''A'' 0 0 ''A''), (''B'', mk_node ''B'' 1 0 ''B'')],
            edges = [(''A'', []), (''B'', [])]\<rparr>"

lemma build_apart: "build empty_graph apart_ops = Inr apart"
  by (simp add: apart_ops_def apart_def empty_graph_def add_node_def Let_def)

lemma apart_not_connected: "\<not> connected apart ''A'' ''B''"
proof
  assume "connected apart ''A'' ''B''"
  then obtain es where "walk apart ''A'' es ''B''" by (auto simp: connected_def)
  then show False
    by (cases es) (simp_all add: apart_def get_neighbors_def)
qed

lemma in_range_apart: "in_range apart"
  by (simp add: in_range_def apart_def mk_node_def)

lemma in_range_diamond: "in_range diamond"
  by (simp add: in_range_def diamond_def mk_node_def mk_edge_def)

lemma diamond_connected: "connected diamond ''A'' ''D''"
  unfolding connected_def
  by (rule exI [of _ "[(''C'', 2), (''D'', 1)]"]) (simp add: diamond_nbrs)

lemma reconstruct_result:
  "reconstruct prev t c = Some (Inr (p, c')) \<Longrightarrow> p \<noteq> None \<and> c' = c"
  by (auto simp: reconstruct_def split: option.splits sum.splits)

lemma dijkstra_result_shape:
  assumes "dijkstra g s t = Some (Inr (p, c))"
  shows "c = PInf \<longleftrightarrow> p = None"
proof (cases "map_of (nodes g) s = None \<or> map_of (nodes g) t = None")
  case True
  with assms show ?thesis by (simp add: dijkstra_def)
next
  case False
  with assms obtain st c0 where st: "dijkstra_loop t (dijkstra_init g s) = Inr st"
    and c0: "distances st t = Some c0"
    by (auto simp: dijkstra_def split: sum.splits option.splits)
  show ?thesis
  proof (cases "c0 = PInf")
    case True
    with assms False st c0 show ?thesis by (simp add: dijkstra_def)
  next
    case ne: False
    with assms False st c0 have "reconstruct (previous st) t c0 = Some (Inr (p, c))"
      by (simp add: dijkstra_def)
    from reconstruct_result [OF this] ne show ?thesis by simp
  qed
qed

lemma astar_result_shape:
  assumes "astar g s t = Some (Inr (p, c))"
  shows "c = PInf \<longleftrightarrow> p = None"
proof (cases "map_of (nodes g) s = None \<or> map_of (nodes g) t = None")
  case True
  with assms show ?thesis by (simp add: astar_def)
next
  case False
  with assms obtain st c0 where st: "astar_loop t (astar_init g s t) = Inr st"
    and c0: "g_score st t = Some c0"
    by (auto simp: astar_def split: sum.splits option.splits)
  show ?thesis
  proof (cases "c0 = PInf")
    case True
    with assms False st c0 show ?thesis by (simp add: astar_def)
  next
    case ne: False
    with assms False st c0 have "reconstruct (previous st) t c0 = Some (Inr (p, c))"
      by (simp add: astar_def)
    from reconstruct_result [OF this] ne show ?thesis by simp
  qed
qed

lemma astar_connected_path:
  assumes wf: "graph_inv g"
    and k: "map_of (nodes g) s \<noteq> None" "map_of (nodes g) t \<noteq> None"
    and c: "connected g s t"
  shows "\<exists>p d. astar g s t = Some (Inr (Some p, Fin d))"
proof -
  from astar_loop_no_error [OF astar_init_inv [OF k(1), of t "{t}"] wf]
  obtain st where st: "astar_loop t (astar_init g s t) = Inr st" by blast
  from astar_after_loop [OF k st] c show ?thesis by blast
qed

lemma dijkstra_connected_path:
  assumes wf: "graph_inv g" and nn: "nonneg_weights g"
    and k: "map_of (nodes g) s \<noteq> None" "map_of (nodes g) t \<noteq> None"
    and c: "connected g s t"
  shows "\<exists>p d. dijkstra g s t = Some (Inr (Some p, Fin d))"
proof -
  from dijkstra_loop_no_error [OF dijkstra_init_inv [OF k(1), of "{t}"] wf]
  obtain st where st: "dijkstra_loop t (dijkstra_init g s) = Inr st" by blast
  from dijkstra_after_loop [OF k nn st] c show ?thesis by blast
qed

lemma built_graph_inv: "build empty_graph cs = Inr g \<Longrightarrow> graph_inv g"
  using graph_inv_build [OF graph_inv_empty, of cs] by auto

text \<open>
  Claim C2, as stated, fails. In the graph made by \<open>add_edge('A', 'B', -1.0)\<close> and
  \<open>add_edge('B', 'C', 5.0)\<close> the keys A and C are present and the edges A-B, B-C connect
  them, and \<open>dijkstra\<close> from A to C returns no path: it does not return.
\<close>

theorem dijkstra_connected_without_path:
  "map_of (nodes neg_graph) ''A'' \<noteq> None \<and> map_of (nodes neg_graph) ''C'' \<noteq> None \<and>
   walk neg_graph ''A'' [(''B'', - 1), (''C'', 5)] ''C'' \<and>
   dijkstra neg_graph ''A'' ''C'' = None"
  using dijkstra_neg_diverges by (simp add: neg_nodes neg_nbrs)

text \<open>
  Claim C2, amended. Both searches return the sentinel (none, +infinity) when the start
  key or the end key is not a key of the node map. On a graph built through \<open>add_node\<close>
  and \<open>add_edge\<close>, with start and end not connected by any sequence of edges,
  \<open>dijkstra\<close> returns the sentinel, \<open>astar\<close> never returns a path, and \<open>astar\<close> returns the
  sentinel if the graph is in range. On a built graph in range, with both keys present
  and connected, \<open>astar\<close> returns a path with a finite cost, and so does \<open>dijkstra\<close> if
  all edge weights are non-negative. Whatever pair a search returns, its cost is
  +infinity exactly when its path is none.
\<close>

theorem path_or_sentinel:
  "(map_of (nodes g) s = None \<or> map_of (nodes g) t = None \<longrightarrow>
      dijkstra g s t = Some (Inr (None, PInf)) \<and> astar g s t = Some (Inr (None, PInf))) \<and>
   (build empty_graph cs = Inr g \<and> \<not> connected g s t \<longrightarrow>
      dijkstra g s t = Some (Inr (None, PInf)) \<and>
      (\<forall>q d. astar g s t \<noteq> Some (Inr (Some q, d)))) \<and>
   (build empty_graph cs = Inr g \<and> \<not> connected g s t \<and> in_range g \<longrightarrow>
      astar g s t = Some (Inr (None, PInf))) \<and>
   (build empty_graph cs = Inr g \<and> in_range g \<and> connected g s t \<and>
    map_of (nodes g) s \<noteq> None \<and> map_of (nodes g) t \<noteq> None \<longrightarrow>
      (\<exists>q d. astar g s t = Some (Inr (Some q, Fin d)))) \<and>
   (build empty_graph cs = Inr g \<and> in_range g \<and> connected g s t \<and>
    map_of (nodes g) s \<noteq> None \<and> map_of (nodes g) t \<noteq> None \<and> nonneg_weights g \<longrightarrow>
      (\<exists>q d. dijkstra g s t = Some (Inr (Some q, Fin d)))) \<and>
   (dijkstra g s t = Some (Inr (p, c)) \<longrightarrow> (c = PInf \<longleftrightarrow> p = None)) \<and>
   (astar g s t = Some (Inr (p', c')) \<longrightarrow> (c' = PInf \<longleftrightarrow> p' = None))"
proof (intro conjI impI)
  assume "map_of (nodes g) s = None \<or> map_of (nodes g) t = None"
  then show "dijkstra g s t = Some (Inr (None, PInf))" "astar g s t = Some (Inr (None, PInf))"
    by (simp_all add: dijkstra_def astar_def)
next
  assume a: "build empty_graph cs = Inr g \<and> \<not> connected g s t"
  then have wf: "graph_inv g" by (auto intro: built_graph_inv)
  from dijkstra_unreachable [OF wf] a show "dijkstra g s t = Some (Inr (None, PInf))" by simp
  from astar_unreachable [OF wf] a have "astar g s t = Some (Inr (None, PInf))" by simp
  then show "\<forall>q d. astar g s t \<noteq> Some (Inr (Some q, d))" by simp
next
  assume a: "build empty_graph cs = Inr g \<and> \<not> connected g s t \<and> in_range g"
  then have wf: "graph_inv g" by (auto intro: built_graph_inv)
  from astar_unreachable [OF wf] a show "astar g s t = Some (Inr (None, PInf))" by simp
next
  assume a: "build empty_graph cs = Inr g \<and> in_range g \<and> connected g s t \<and>
    map_of (nodes g) s \<noteq> None \<and> map_of (nodes g) t \<noteq> None"
  then have wf: "graph_inv g" by (auto intro: built_graph_inv)
  from astar_connected_path [OF wf] a
  show "\<exists>q d. astar g s t = Some (Inr (Some q, Fin d))" by simp
next
  assume a: "build empty_graph cs = Inr g \<and> in_range g \<and> connected g s t \<and>
    map_of (nodes g) s \<noteq> None \<and> map_of (nodes g) t \<noteq> None \<and> nonneg_weights g"
  then have wf: "graph_inv g" by (auto intro: built_graph_inv)
  from dijkstra_connected_path [OF wf] a
  show "\<exists>q d. dijkstra g s t = Some (Inr (Some q, Fin d))" by simp
next
  assume "dijkstra g s t = Some (Inr (p, c))"
  then show "c = PInf \<longleftrightarrow> p = None" by (rule dijkstra_result_shape)
next
  assume "astar g s t = Some (Inr (p', c'))"
  then show "c' = PInf \<longleftrightarrow> p' = None" by (rule astar_result_shape)
qed

theorem path_or_sentinel_witness:
  "map_of (nodes diamond) ''Z'' = None \<and>
   dijkstra diamond ''Z'' ''D'' = Some (Inr (None, PInf)) \<and>
   astar diamond ''A'' ''Z'' = Some (Inr (None, PInf)) \<and>
   build empty_graph apart_ops = Inr apart \<and> \<not> connected apart ''A'' ''B'' \<and> in_range apart \<and>
   dijkstra apart ''A'' ''B'' = Some (Inr (None, PInf)) \<and>
   astar apart ''A'' ''B'' = Some (Inr (None, PInf)) \<and>
   build empty_graph diamond_ops = Inr diamond \<and> in_range diamond \<and>
   connected diamond ''A'' ''D'' \<and> nonneg_weights diamond \<and>
   map_of (nodes diamond) ''A'' \<noteq> None \<and> map_of (nodes diamond) ''D'' \<noteq> None \<and>
   (\<exists>q d. astar diamond ''A'' ''D'' = Some (Inr (Some q, Fin d))) \<and>
   (\<exists>q d. dijkstra diamond ''A'' ''D'' = Some (Inr (Some q, Fin d))) \<and>
   dijkstra diamond ''A'' ''D'' = Some (Inr (Some [''A'', ''C'', ''D''], Fin 3)) \<and>
   astar diamond ''A'' ''D'' = Some (Inr (Some [''A'', ''C'', ''D''], Fin 3)) \<and>
   (Fin 3 = PInf) = (Some [''A'', ''C'', ''D''] = None)"
proof -
  have z: "map_of (nodes diamond) ''Z'' = None" by (simp add: diamond_nodes)
  have k: "map_of (nodes diamond) ''A'' \<noteq> None" "map_of (nodes diamond) ''D'' \<noteq> None"
    by (simp_all add: diamond_nodes)
  from path_or_sentinel [of diamond "''Z''" "''D''"] z
  have 1: "dijkstra diamond ''Z'' ''D'' = Some (Inr (None, PInf))" by blast
  from path_or_sentinel [of diamond "''A''" "''Z''"] z
  have 2: "astar diamond ''A'' ''Z'' = Some (Inr (None, PInf))" by blast
  from path_or_sentinel [of apart "''A''" "''B''" apart_ops]
    build_apart apart_not_connected in_range_apart
  have 3: "dijkstra apart ''A'' ''B'' = Some (Inr (None, PInf))"
    "astar apart ''A'' ''B'' = Some (Inr (None, PInf))" by blast+
  note d = path_or_sentinel [of diamond "''A''" "''D''" diamond_ops
      "Some [''A'', ''C'', ''D'']" "Fin 3" "Some [''A'', ''C'', ''D'']" "Fin 3"]
  from d build_diamond in_range_diamond diamond_connected nonneg_diamond k
  have 4: "\<exists>q d. astar diamond ''A'' ''D'' = Some (Inr (Some q, Fin d))"
    "\<exists>q d. dijkstra diamond ''A'' ''D'' = Some (Inr (Some q, Fin d))" by blast+
  from d dijkstra_diamond
  have 5: "(Fin 3 = PInf) = (Some [''A'', ''C'', ''D''] = None)" by blast
  from z 1 2 3 build_apart apart_not_connected in_range_apart build_diamond in_range_diamond
    diamond_connected nonneg_diamond k 4 5 dijkstra_diamond astar_diamond
  show ?thesis by blast
qed

section \<open>The two costs compared\<close>


















end
